(* ===== verification/Prelude.thy ===== *)
theory Prelude
  imports Main
begin

text \<open>
  Shared vocabulary of the dotenv development.
  \<^item> The constants of \<^verbatim>\<open>src/dotenv.h\<close> (\<open>LINE_SIZE\<close>, \<open>MAX_VAR_NAME\<close>).
  \<^item> The C library the loader calls, as used in the C locale: the classification
    functions of \<^verbatim>\<open><ctype.h>\<close>, and \<^verbatim>\<open>strlen\<close>, \<^verbatim>\<open>strchr\<close>, \<^verbatim>\<open>strncpy\<close>,
    \<^verbatim>\<open>getenv\<close>, \<^verbatim>\<open>setenv\<close>.
  \<^item> The memory model: a C array of \<open>char\<close> is a \<open>cbuf\<close> (a list of bytes of
    fixed length), a pointer into it is an index, and the C string a pointer
    denotes is \<open>cstr b p\<close>: the bytes from \<open>p\<close> up to the first NUL.
  \<^item> The lemmas every component uses about these: how a C string reads after a
    byte of its buffer is overwritten, where its terminator lies, how
    \<open>strchr\<close> and \<open>strncpy\<close> read and write.
\<close>

section \<open>Constants of dotenv.h\<close>

definition LINE_SIZE :: nat where
  "LINE_SIZE = 1024"

definition MAX_VAR_NAME :: nat where
  "MAX_VAR_NAME = 256"

section \<open>Bytes and the C locale\<close>

abbreviation NUL :: char where "NUL \<equiv> CHR 0x00"
abbreviation TAB :: char where "TAB \<equiv> CHR 0x09"
abbreviation LF :: char where "LF \<equiv> CHR 0x0A"
abbreviation VT :: char where "VT \<equiv> CHR 0x0B"
abbreviation FF :: char where "FF \<equiv> CHR 0x0C"
abbreviation CR :: char where "CR \<equiv> CHR 0x0D"
abbreviation DQUOTE :: char where "DQUOTE \<equiv> CHR 0x22"
abbreviation BACKSLASH :: char where "BACKSLASH \<equiv> CHR 0x5C"

text \<open>
  \<^verbatim>\<open>isspace\<close>, \<^verbatim>\<open>isalpha\<close>, \<^verbatim>\<open>isdigit\<close>, \<^verbatim>\<open>isalnum\<close> in the "C" locale, the
  locale a program runs in until it calls \<^verbatim>\<open>setlocale\<close> (the sources never do).
  Bytes of 0x80 and above belong to no class there.
\<close>

definition isspace :: "char \<Rightarrow> bool" where
  "isspace c \<longleftrightarrow> c = CHR '' '' \<or> c = TAB \<or> c = LF \<or> c = VT \<or> c = FF \<or> c = CR"

definition isalpha :: "char \<Rightarrow> bool" where
  "isalpha c \<longleftrightarrow>
     (let n = (of_char c :: nat) in (65 \<le> n \<and> n \<le> 90) \<or> (97 \<le> n \<and> n \<le> 122))"

definition isdigit :: "char \<Rightarrow> bool" where
  "isdigit c \<longleftrightarrow> (let n = (of_char c :: nat) in 48 \<le> n \<and> n \<le> 57)"

definition isalnum :: "char \<Rightarrow> bool" where
  "isalnum c \<longleftrightarrow> isalpha c \<or> isdigit c"

section \<open>C strings in byte buffers\<close>

type_synonym cbuf = "char list"

text \<open>The C string at pointer \<open>p\<close> of buffer \<open>b\<close>, and its length.\<close>

definition cstr :: "cbuf \<Rightarrow> nat \<Rightarrow> string" where
  "cstr b p = takeWhile (\<lambda>c. c \<noteq> NUL) (drop p b)"

definition strlen :: "cbuf \<Rightarrow> nat \<Rightarrow> nat" where
  "strlen b p = length (cstr b p)"

text \<open>A pointer denotes a terminated string when a NUL follows it inside the buffer.\<close>

definition terminated :: "cbuf \<Rightarrow> nat \<Rightarrow> bool" where
  "terminated b p \<longleftrightarrow> NUL \<in> set (drop p b)"

text \<open>Copying a byte sequence into a buffer at offset \<open>i\<close> (what \<^verbatim>\<open>fgets\<close> and
  a run of \<open>*write++ = c\<close> stores do).\<close>

definition memwrite :: "cbuf \<Rightarrow> nat \<Rightarrow> char list \<Rightarrow> cbuf" where
  "memwrite b i xs = take i b @ xs @ drop (i + length xs) b"

text \<open>\<^verbatim>\<open>strchr(s, c)\<close>: the first position at or after \<open>p\<close> holding \<open>c\<close>,
  scanning no further than the terminator.\<close>

function strchr :: "cbuf \<Rightarrow> nat \<Rightarrow> char \<Rightarrow> nat option" where
  "strchr b p c =
     (if p < length b then
        (if b ! p = c then Some p
         else if b ! p = NUL then None
         else strchr b (Suc p) c)
      else None)"
  by pat_completeness auto
termination
  by (relation "measure (\<lambda>(b, p, c). length b - p)") auto

declare strchr.simps [simp del]

text \<open>\<^verbatim>\<open>strncpy(dst, src, n)\<close> at the start of \<open>dst\<close>: the first \<open>n\<close> bytes of
  the source string, padded with NULs up to \<open>n\<close>; no terminator is written when
  the source is \<open>n\<close> bytes or longer.\<close>

definition strncpy :: "cbuf \<Rightarrow> cbuf \<Rightarrow> nat \<Rightarrow> nat \<Rightarrow> cbuf" where
  "strncpy dst src s n = take n (cstr src s @ replicate n NUL) @ drop n dst"

section \<open>The process environment and standard error\<close>

type_synonym environ = "string \<rightharpoonup> string"

definition getenv :: "environ \<Rightarrow> string \<Rightarrow> string option" where
  "getenv e n = e n"

text \<open>\<^verbatim>\<open>setenv(name, value, overwrite)\<close>: fails with \<open>EINVAL\<close> (result -1,
  environment unchanged) on an empty name or a name holding \<open>=\<close>.\<close>

definition setenv :: "environ \<Rightarrow> string \<Rightarrow> string \<Rightarrow> bool \<Rightarrow> int \<times> environ" where
  "setenv e n v overwrite =
     (if n = [] \<or> CHR ''='' \<in> set n then (-1, e)
      else if overwrite \<or> e n = None then (0, e(n \<mapsto> v))
      else (0, e))"

text \<open>What the loader writes to standard error, one constructor per message.\<close>

datatype diag =
    Perror string
  | Name_too_long
  | Skipping_invalid_line string

section \<open>Lemmas\<close>

named_theorems cstr_simps "rewriting C strings after buffer writes"

lemmas ctype_defs = isspace_def isalpha_def isdigit_def isalnum_def

lemma isspace_not_NUL [simp]: "isspace c \<Longrightarrow> c \<noteq> NUL"
  by (auto simp: isspace_def)

lemma isspace_CR [simp]: "isspace CR"
  by (simp add: isspace_def)

lemma isalnum_not_space: "isalnum c \<Longrightarrow> \<not> isspace c"
  by (auto simp: ctype_defs Let_def)

lemma isalnum_not_NUL: "isalnum c \<Longrightarrow> c \<noteq> NUL"
  by (auto simp: ctype_defs Let_def)

lemma isalnum_not_eq: "isalnum c \<Longrightarrow> c \<noteq> CHR ''=''"
  by (auto simp: ctype_defs Let_def)

lemma isalpha_isalnum: "isalpha c \<Longrightarrow> isalnum c"
  by (simp add: isalnum_def)

subsection \<open>Lists\<close>

lemma takeWhile_update_stop:
  "\<not> P x \<Longrightarrow> i < length xs \<Longrightarrow> takeWhile P (xs[i := x]) = take i (takeWhile P xs)"
proof (induction xs arbitrary: i)
  case Nil
  then show ?case by simp
next
  case (Cons y ys)
  then show ?case by (cases i) auto
qed

lemma takeWhile_update_beyond:
  "length (takeWhile P xs) < i \<Longrightarrow> takeWhile P (xs[i := x]) = takeWhile P xs"
proof (induction xs arbitrary: i)
  case Nil
  then show ?case by simp
next
  case (Cons y ys)
  then show ?case by (cases i) (auto split: if_splits)
qed

lemma takeWhile_all_append:
  "\<forall>c\<in>set xs. P c \<Longrightarrow> \<not> P y \<Longrightarrow> takeWhile P (xs @ y # ys) = xs"
  by (induction xs) auto

lemma length_takeWhile_less:
  "x \<in> set xs \<Longrightarrow> \<not> P x \<Longrightarrow> length (takeWhile P xs) < length xs"
  by (induction xs) auto

lemma takeWhile_take_length:
  "takeWhile P (take n xs) = take n (takeWhile P xs)"
proof (induction xs arbitrary: n)
  case Nil
  then show ?case by simp
next
  case (Cons y ys)
  then show ?case by (cases n) auto
qed

subsection \<open>C strings\<close>

lemma cstr_beyond [cstr_simps]: "length b \<le> p \<Longrightarrow> cstr b p = []"
  by (simp add: cstr_def)

lemma cstr_unfold:
  "p < length b \<Longrightarrow> cstr b p = (if b ! p = NUL then [] else b ! p # cstr b (Suc p))"
  by (simp add: cstr_def Cons_nth_drop_Suc [symmetric])

lemma cstr_NUL [cstr_simps]: "p < length b \<Longrightarrow> b ! p = NUL \<Longrightarrow> cstr b p = []"
  by (simp add: cstr_unfold)

lemma cstr_Cons [cstr_simps]:
  "p < length b \<Longrightarrow> b ! p \<noteq> NUL \<Longrightarrow> cstr b p = b ! p # cstr b (Suc p)"
  by (simp add: cstr_unfold)

lemma NUL_notin_cstr [simp]: "NUL \<notin> set (cstr b p)"
  by (auto simp: cstr_def dest: set_takeWhileD)

lemma cstr_nth: "i < length (cstr b p) \<Longrightarrow> cstr b p ! i = b ! (p + i)"
proof -
  assume i: "i < length (cstr b p)"
  then have "i < length (drop p b)"
    using length_takeWhile_le [of "\<lambda>c. c \<noteq> NUL" "drop p b"] by (simp add: cstr_def)
  with i show ?thesis by (simp add: cstr_def takeWhile_nth)
qed

lemma terminated_iff_nth:
  "terminated b p \<longleftrightarrow> (\<exists>j. p \<le> j \<and> j < length b \<and> b ! j = NUL)"
proof
  assume "terminated b p"
  then obtain i where "i < length (drop p b)" and "drop p b ! i = NUL"
    unfolding terminated_def in_set_conv_nth by blast
  then show "\<exists>j. p \<le> j \<and> j < length b \<and> b ! j = NUL"
    by (intro exI [of _ "p + i"]) simp
next
  assume "\<exists>j. p \<le> j \<and> j < length b \<and> b ! j = NUL"
  then obtain j where "p \<le> j" "j < length b" "b ! j = NUL" by blast
  then have "drop p b ! (j - p) = NUL" and "j - p < length (drop p b)" by simp_all
  then show "terminated b p"
    unfolding terminated_def by (metis nth_mem)
qed

lemma terminated_unfold:
  "terminated b p \<longleftrightarrow> p < length b \<and> (b ! p = NUL \<or> terminated b (Suc p))"
  by (cases "p < length b") (auto simp: terminated_def Cons_nth_drop_Suc [symmetric])

lemma terminated_less: "terminated b p \<Longrightarrow> p < length b"
  by (simp add: terminated_unfold [of b p])

lemma terminated_end:
  assumes "terminated b p"
  shows "p + strlen b p < length b" and "b ! (p + strlen b p) = NUL"
proof -
  have lt: "length (takeWhile (\<lambda>c. c \<noteq> NUL) (drop p b)) < length (drop p b)"
    by (rule length_takeWhile_less [of NUL]) (use assms in \<open>simp_all add: terminated_def\<close>)
  then show "p + strlen b p < length b"
    by (simp add: strlen_def cstr_def)
  from nth_length_takeWhile [OF lt]
  show "b ! (p + strlen b p) = NUL"
    using lt by (simp add: strlen_def cstr_def)
qed

lemma terminated_Suc:
  "terminated b p \<Longrightarrow> b ! p \<noteq> NUL \<Longrightarrow> terminated b (Suc p)"
  by (simp add: terminated_unfold [of b p])

lemma terminated_cstr_tl:
  "terminated b p \<Longrightarrow> b ! p \<noteq> NUL \<Longrightarrow> cstr b (Suc p) = tl (cstr b p)"
  by (simp add: cstr_Cons terminated_less)

lemma terminated_within:
  assumes "terminated b p" and "p \<le> q" and "q \<le> p + strlen b p"
  shows "terminated b q"
  using terminated_end [OF assms(1)] assms(2,3)
  by (auto simp: terminated_iff_nth intro!: exI [of _ "p + strlen b p"])

lemma cstr_update_NUL [cstr_simps]:
  assumes "p \<le> k" and "k < length b"
  shows "cstr (b[k := NUL]) p = take (k - p) (cstr b p)"
proof -
  have "drop p (b[k := NUL]) = (drop p b)[k - p := NUL]"
    using assms(1) by (rule drop_update_swap)
  moreover have "k - p < length (drop p b)"
    using assms by simp
  ultimately show ?thesis
    by (simp add: cstr_def takeWhile_update_stop)
qed

lemma cstr_update_before [cstr_simps]: "k < p \<Longrightarrow> cstr (b[k := x]) p = cstr b p"
  by (simp add: cstr_def)

lemma cstr_update_after [cstr_simps]:
  assumes "p + strlen b p < k"
  shows "cstr (b[k := x]) p = cstr b p"
proof -
  have "drop p (b[k := x]) = (drop p b)[k - p := x]"
    using assms by (intro drop_update_swap) simp
  moreover have "length (takeWhile (\<lambda>c. c \<noteq> NUL) (drop p b)) < k - p"
    using assms by (simp add: strlen_def cstr_def)
  ultimately show ?thesis
    by (simp add: cstr_def takeWhile_update_beyond)
qed

lemma terminated_update_NUL:
  "p \<le> k \<Longrightarrow> k < length b \<Longrightarrow> terminated (b[k := NUL]) p"
  by (auto simp: terminated_iff_nth intro!: exI [of _ k])

lemma terminated_update_other:
  assumes "terminated b p" and "k \<noteq> p + strlen b p"
  shows "terminated (b[k := x]) p"
proof -
  have "p + strlen b p < length b" and "b ! (p + strlen b p) = NUL"
    using assms(1) by (rule terminated_end)+
  with assms(2) show ?thesis
    by (auto simp: terminated_iff_nth intro!: exI [of _ "p + strlen b p"])
qed

lemma cstr_memwrite_0:
  assumes "NUL \<notin> set xs"
  shows "cstr (memwrite b 0 (xs @ NUL # ys)) 0 = xs"
proof -
  have "\<forall>c\<in>set xs. c \<noteq> NUL" using assms by auto
  then show ?thesis by (simp add: memwrite_def cstr_def takeWhile_all_append)
qed

lemma length_memwrite:
  "i + length xs \<le> length b \<Longrightarrow> length (memwrite b i xs) = length b"
  by (simp add: memwrite_def)

subsection \<open>strchr and strncpy\<close>

lemma strchr_cstr:
  assumes "terminated b p" and "c \<noteq> NUL"
  shows "strchr b p c =
    (if c \<in> set (cstr b p) then Some (p + length (takeWhile (\<lambda>x. x \<noteq> c) (cstr b p))) else None)"
  using assms
proof (induction b p c rule: strchr.induct)
  case (1 b p c)
  have lt: "p < length b" using "1.prems"(1) by (rule terminated_less)
  show ?case
  proof (cases "b ! p = NUL")
    case True
    with lt "1.prems" show ?thesis by (simp add: strchr.simps [of b p c] cstr_NUL)
  next
    case False
    have t: "terminated b (Suc p)" using "1.prems"(1) False by (rule terminated_Suc)
    have cs: "cstr b p = b ! p # cstr b (Suc p)" using lt False by (rule cstr_Cons)
    show ?thesis
    proof (cases "b ! p = c")
      case True
      with lt cs show ?thesis by (simp add: strchr.simps [of b p c])
    next
      case ne: False
      have "strchr b (Suc p) c =
        (if c \<in> set (cstr b (Suc p))
         then Some (Suc p + length (takeWhile (\<lambda>x. x \<noteq> c) (cstr b (Suc p)))) else None)"
        using "1.IH" lt ne False t "1.prems"(2) by blast
      with lt ne False cs show ?thesis by (simp add: strchr.simps [of b p c])
    qed
  qed
qed

lemma strchr_Some_nth:
  assumes "terminated b p" and "c \<noteq> NUL" and "strchr b p c = Some d"
  shows "d = p + length (takeWhile (\<lambda>x. x \<noteq> c) (cstr b p))"
    and "d < p + strlen b p" and "b ! d = c"
proof -
  let ?k = "length (takeWhile (\<lambda>x. x \<noteq> c) (cstr b p))"
  have c: "c \<in> set (cstr b p)" and d: "d = p + ?k"
    using assms by (simp_all add: strchr_cstr split: if_splits)
  then show "d = p + ?k" by simp
  have k: "?k < length (cstr b p)"
    using c by (rule length_takeWhile_less) simp
  then show "d < p + strlen b p" by (simp add: d strlen_def)
  have "cstr b p ! ?k = c"
    using nth_length_takeWhile [OF k] by simp
  with k show "b ! d = c" by (simp add: d cstr_nth)
qed

lemma takeWhile_take_pad:
  assumes "NUL \<notin> set ys"
  shows "takeWhile (\<lambda>c. c \<noteq> NUL) (take n ys @ replicate m NUL @ NUL # r) = take n ys"
proof -
  have "\<forall>c\<in>set (take n ys). c \<noteq> NUL"
    using assms by (auto dest: in_set_takeD)
  then have "takeWhile (\<lambda>c. c \<noteq> NUL) (take n ys @ replicate m NUL @ NUL # r) =
      take n ys @ takeWhile (\<lambda>c. c \<noteq> NUL) (replicate m NUL @ NUL # r)"
    by (intro takeWhile_append2) blast
  also have "takeWhile (\<lambda>c. c \<noteq> NUL) (replicate m NUL @ NUL # r) = []"
    by (cases m) simp_all
  finally show ?thesis by simp
qed

lemma cstr_strncpy_term:
  assumes "n < length dst"
  shows "cstr ((strncpy dst src s n)[n := NUL]) 0 = take n (cstr src s)"
proof -
  let ?xs = "take n (cstr src s @ replicate n NUL)"
  have len: "length ?xs = n" by simp
  have "drop n dst = dst ! n # drop (Suc n) dst"
    using assms by (rule Cons_nth_drop_Suc [symmetric])
  then have "(strncpy dst src s n)[n := NUL] = ?xs @ NUL # drop (Suc n) dst"
    using len by (simp add: strncpy_def list_update_append)
  moreover have "takeWhile (\<lambda>c. c \<noteq> NUL) (?xs @ NUL # drop (Suc n) dst) = take n (cstr src s)"
    using takeWhile_take_pad [of "cstr src s" n "n - length (cstr src s)"] by simp
  ultimately show ?thesis
    by (simp only: cstr_def drop_0)
qed

text \<open>Cutting a string at the first occurrence of a byte, as \<open>*strchr(s, c) = 0\<close>
  does in \<^verbatim>\<open>parse_line\<close> and \<^verbatim>\<open>parse_value\<close>.\<close>

lemma strchr_cut:
  assumes t: "terminated b v" and c: "c \<noteq> NUL"
  defines "b2 \<equiv> (case strchr b v c of Some k \<Rightarrow> b[k := NUL] | None \<Rightarrow> b)"
  shows "cstr b2 v = takeWhile (\<lambda>x. x \<noteq> c) (cstr b v)" and "terminated b2 v"
    and "length b2 = length b"
proof -
  have "cstr b2 v = takeWhile (\<lambda>x. x \<noteq> c) (cstr b v) \<and> terminated b2 v \<and> length b2 = length b"
  proof (cases "strchr b v c")
    case None
    then have "c \<notin> set (cstr b v)" using strchr_cstr [OF t c] by (simp split: if_splits)
    then have "takeWhile (\<lambda>x. x \<noteq> c) (cstr b v) = cstr b v"
      by (auto simp: takeWhile_eq_all_conv)
    with None t show ?thesis by (simp only: b2_def option.case)
  next
    case (Some k)
    note k = strchr_Some_nth [OF t c Some]
    have kl: "k < length b" using k(2) terminated_end(1) [OF t] by linarith
    have "cstr (b[k := NUL]) v = take (k - v) (cstr b v)"
      using k(1) kl by (intro cstr_update_NUL) simp_all
    also have "\<dots> = takeWhile (\<lambda>x. x \<noteq> c) (cstr b v)"
      using k(1) by (simp flip: takeWhile_eq_take)
    finally show ?thesis
      using Some kl k(1) by (simp add: b2_def terminated_update_NUL)
  qed
  then show "cstr b2 v = takeWhile (\<lambda>x. x \<noteq> c) (cstr b v)" and "terminated b2 v"
    and "length b2 = length b" by simp_all
qed

lemma cstr_memwrite_NUL:
  assumes "NUL \<notin> set d" and "length d < length out"
  shows "cstr ((memwrite out 0 d)[length d := NUL]) 0 = d"
proof -
  have "drop (length d) out = out ! length d # drop (Suc (length d)) out"
    using assms(2) by (rule Cons_nth_drop_Suc [symmetric])
  then have "(memwrite out 0 d)[length d := NUL] = d @ NUL # drop (Suc (length d)) out"
    by (simp add: memwrite_def list_update_append)
  moreover have "\<forall>c\<in>set d. c \<noteq> NUL" using assms(1) by auto
  ultimately show ?thesis by (simp add: cstr_def takeWhile_all_append)
qed

lemma length_strncpy: "n \<le> length dst \<Longrightarrow> length (strncpy dst src s n) = length dst"
  by (simp add: strncpy_def)

lemma cstr_append_NUL: "NUL \<notin> set xs \<Longrightarrow> cstr (xs @ NUL # ys) 0 = xs"
proof -
  assume "NUL \<notin> set xs"
  then have "\<forall>c\<in>set xs. c \<noteq> NUL" by auto
  then show ?thesis by (simp add: cstr_def takeWhile_all_append)
qed

lemma cstr_strncpy_short:
  assumes "strlen src s < n" and "n \<le> length dst"
  shows "cstr (strncpy dst src s n) 0 = cstr src s"
proof -
  obtain k where k: "n - strlen src s = Suc k" using assms(1) by (cases "n - strlen src s") auto
  have "strncpy dst src s n = cstr src s @ NUL # replicate k NUL @ drop n dst"
    using assms k by (simp add: strncpy_def strlen_def)
  then show ?thesis by (simp add: cstr_append_NUL)
qed

lemma terminated_update_before: "terminated b q \<Longrightarrow> k < q \<Longrightarrow> terminated (b[k := x]) q"
  by (simp add: terminated_def)

lemma length_takeWhile_less_iff: "length (takeWhile P xs) < length xs \<longleftrightarrow> (\<exists>x\<in>set xs. \<not> P x)"
  by (induction xs) auto

text \<open>A string is terminated inside its array exactly when its terminator's
  index is inside the array.\<close>

lemma terminated_iff_strlen: "terminated b p \<longleftrightarrow> p + strlen b p < length b"
proof -
  have "terminated b p \<longleftrightarrow> length (takeWhile (\<lambda>c. c \<noteq> NUL) (drop p b)) < length (drop p b)"
    unfolding terminated_def length_takeWhile_less_iff by simp
  then show ?thesis by (auto simp: strlen_def cstr_def)
qed

end
