(* ===== verification/Trim.thy ===== *)
theory Trim
  imports Prelude
begin

text \<open>
  \<^verbatim>\<open>trim_whitespace\<close> of \<^verbatim>\<open>src/dotenv.c\<close>. The C function advances its
  argument past leading white space, walks a second pointer back from the last
  byte over trailing white space, writes a NUL after it, then removes one
  trailing carriage return, and returns the advanced pointer. It mutates the
  buffer it is given, so the model takes the buffer and the pointer and returns
  both. \<open>trim_spec\<close> is what the function promises on the string level; the
  lemmas show that the C code computes it, which bytes of the buffer it writes,
  that the carriage-return step never fires, and that trimming twice changes
  nothing.
\<close>

section \<open>The C function\<close>

text \<open>\<^verbatim>\<open>while (isspace((unsigned char)*str)) str++;\<close>\<close>

function skip_leading :: "cbuf \<Rightarrow> nat \<Rightarrow> nat" where
  "skip_leading b p = (if p < length b \<and> isspace (b ! p) then skip_leading b (Suc p) else p)"
  by pat_completeness auto
termination
  by (relation "measure (\<lambda>(b, p). length b - p)") auto

text \<open>\<^verbatim>\<open>while (end > str && isspace((unsigned char)*end)) end--;\<close>\<close>

function skip_trailing :: "cbuf \<Rightarrow> nat \<Rightarrow> nat \<Rightarrow> nat" where
  "skip_trailing b s e = (if s < e \<and> isspace (b ! e) then skip_trailing b s (e - 1) else e)"
  by pat_completeness auto
termination
  by (relation "measure (\<lambda>(b, s, e). e)") auto

declare skip_leading.simps [simp del] skip_trailing.simps [simp del]

lemma skip_trailing_stop: "\<not> (s < e \<and> isspace (b ! e)) \<Longrightarrow> skip_trailing b s e = e"
  by (subst skip_trailing.simps) auto

lemma skip_trailing_step:
  "s < e \<Longrightarrow> isspace (b ! e) \<Longrightarrow> skip_trailing b s e = skip_trailing b s (e - 1)"
  by (subst skip_trailing.simps) simp

definition trim_whitespace :: "cbuf \<Rightarrow> nat \<Rightarrow> cbuf \<times> nat" where
  "trim_whitespace b str0 =
     (let str = skip_leading b str0 in
      if b ! str = NUL then (b, str)
      else
        let e = skip_trailing b str (str + strlen b str - 1);
            b1 = b[Suc e := NUL]
        in if b1 ! (str + strlen b1 str - 1) = CR
           then (b1[str + strlen b1 str - 1 := NUL], str)
           else (b1, str))"

section \<open>What it promises\<close>

definition ltrim :: "string \<Rightarrow> string" where
  "ltrim s = dropWhile isspace s"

definition rtrim :: "string \<Rightarrow> string" where
  "rtrim s = rev (dropWhile isspace (rev s))"

definition trim_spec :: "string \<Rightarrow> string" where
  "trim_spec s = rtrim (ltrim s)"

section \<open>Lemmas on the string level\<close>

lemma rtrim_snoc: "rtrim (xs @ [c]) = (if isspace c then rtrim xs else xs @ [c])"
  by (simp add: rtrim_def)

lemma rtrim_Nil [simp]: "rtrim [] = []"
  by (simp add: rtrim_def)

lemma rtrim_length_le: "length (rtrim s) \<le> length s"
  using length_dropWhile_le [of isspace "rev s"] by (simp add: rtrim_def)

lemma rtrim_prefix: "take (length (rtrim s)) s = rtrim s"
proof (induction s rule: rev_induct)
  case Nil
  then show ?case by simp
next
  case (snoc c xs)
  then show ?case by (simp add: rtrim_snoc rtrim_length_le)
qed

lemma rtrim_last: "rtrim s \<noteq> [] \<Longrightarrow> \<not> isspace (last (rtrim s))"
  by (induction s rule: rev_induct) (auto simp: rtrim_snoc)

lemma rtrim_Cons_nonspace: "\<not> isspace c \<Longrightarrow> rtrim (c # xs) \<noteq> []"
proof (induction xs rule: rev_induct)
  case Nil
  then show ?case by (simp add: rtrim_def)
next
  case (snoc x xs)
  then show ?case using rtrim_snoc [of "c # xs" x] by simp
qed

lemma ltrim_hd: "ltrim s \<noteq> [] \<Longrightarrow> \<not> isspace (hd (ltrim s))"
  by (induction s) (auto simp: ltrim_def)

lemma ltrim_eq_drop: "ltrim s = drop (length (takeWhile isspace s)) s"
  by (simp add: ltrim_def dropWhile_eq_drop)

lemma ltrim_idem [simp]: "ltrim (ltrim s) = ltrim s"
  by (simp add: ltrim_def)

lemma rtrim_idem [simp]: "rtrim (rtrim s) = rtrim s"
  by (simp add: rtrim_def)

lemma ltrim_rtrim: "ltrim (rtrim (ltrim s)) = rtrim (ltrim s)"
proof (cases "ltrim s")
  case Nil
  have "ltrim [] = []" by (simp add: ltrim_def)
  with Nil show ?thesis by simp
next
  case (Cons c cs)
  then have nsp: "\<not> isspace c" using ltrim_hd [of s] by simp
  then have "rtrim (c # cs) \<noteq> []" by (rule rtrim_Cons_nonspace)
  then have n: "0 < length (rtrim (c # cs))" by simp
  have "rtrim (c # cs) = take (length (rtrim (c # cs))) (c # cs)"
    by (rule rtrim_prefix [symmetric])
  also have "\<dots> = c # take (length (rtrim (c # cs)) - 1) cs"
    using n by (cases "length (rtrim (c # cs))") simp_all
  finally obtain r where r: "rtrim (c # cs) = c # r" by blast
  then have "ltrim (rtrim (c # cs)) = rtrim (c # cs)"
    using nsp by (simp add: ltrim_def)
  with Cons show ?thesis by simp
qed

lemma trim_spec_idem: "trim_spec (trim_spec s) = trim_spec s"
  by (simp add: trim_spec_def ltrim_rtrim)

lemma takeWhile_drop_swap:
  "k \<le> length (takeWhile P xs) \<Longrightarrow> takeWhile P (drop k xs) = drop k (takeWhile P xs)"
proof (induction xs arbitrary: k)
  case Nil
  then show ?case by simp
next
  case (Cons y ys)
  then show ?case by (cases k) (auto split: if_splits)
qed

section \<open>Lemmas on the buffer\<close>

lemma cstr_add:
  assumes "k \<le> strlen b p"
  shows "cstr b (p + k) = drop k (cstr b p)"
proof -
  have "drop (p + k) b = drop k (drop p b)" by (simp add: add.commute)
  then show ?thesis
    using assms takeWhile_drop_swap [of k "\<lambda>c. c \<noteq> NUL" "drop p b"]
    by (simp only: cstr_def strlen_def)
qed

lemma skip_leading_eq:
  "terminated b p \<Longrightarrow> skip_leading b p = p + length (takeWhile isspace (cstr b p))"
proof (induction b p rule: skip_leading.induct)
  case (1 b p)
  have lt: "p < length b" using "1.prems" by (rule terminated_less)
  show ?case
  proof (cases "isspace (b ! p)")
    case True
    then have ne: "b ! p \<noteq> NUL" by simp
    have "terminated b (Suc p)" using "1.prems" ne by (rule terminated_Suc)
    with "1.IH" lt True have "skip_leading b (Suc p) =
        Suc p + length (takeWhile isspace (cstr b (Suc p)))" by blast
    with lt True ne show ?thesis
      by (simp add: skip_leading.simps [of b p] cstr_Cons)
  next
    case False
    then show ?thesis
      by (cases "b ! p = NUL") (simp_all add: skip_leading.simps [of b p] lt cstr_NUL cstr_Cons)
  qed
qed

lemma skip_trailing_eq:
  assumes "cstr b p \<noteq> []" and "\<not> isspace (hd (cstr b p))"
  shows "p \<le> e \<Longrightarrow> e < p + strlen b p \<Longrightarrow>
    skip_trailing b p e = p + length (rtrim (take (Suc (e - p)) (cstr b p))) - 1"
proof (induction e)
  case 0
  then have "p = 0" by simp
  moreover have "take (Suc 0) (cstr b p) = [hd (cstr b p)]"
    using assms(1) by (cases "cstr b p") simp_all
  ultimately show ?case
    using assms(2) by (simp add: skip_trailing_stop rtrim_snoc [of "[]", simplified])
next
  case (Suc e)
  let ?s = "cstr b p"
  have at: "b ! Suc e = ?s ! (Suc e - p)"
    using Suc.prems by (simp add: cstr_nth strlen_def)
  have tk: "take (Suc (Suc e - p)) ?s = take (Suc e - p) ?s @ [?s ! (Suc e - p)]"
    using Suc.prems by (simp add: take_Suc_conv_app_nth strlen_def)
  show ?case
  proof (cases "p < Suc e \<and> isspace (b ! Suc e)")
    case True
    then have "skip_trailing b p (Suc e) = skip_trailing b p e"
      by (simp add: skip_trailing_step)
    also have "\<dots> = p + length (rtrim (take (Suc (e - p)) ?s)) - 1"
      using Suc.IH Suc.prems True by simp
    also have "Suc (e - p) = Suc e - p" using True by (simp add: Suc_diff_le)
    finally show ?thesis using True by (simp add: tk at rtrim_snoc)
  next
    case False
    show ?thesis
    proof (cases "Suc e = p")
      case True
      have "take (Suc 0) ?s = [hd ?s]"
        using assms(1) by (cases ?s) simp_all
      with True assms show ?thesis
        by (simp add: skip_trailing_stop rtrim_snoc [of "[]", simplified])
    next
      case ne: False
      with False Suc.prems have "\<not> isspace (b ! Suc e)" by simp
      then show ?thesis
        using False Suc.prems
        by (simp add: skip_trailing_stop tk at rtrim_snoc strlen_def)
    qed
  qed
qed

lemma rtrim_nth_last:
  "rtrim s \<noteq> [] \<Longrightarrow> s ! (length (rtrim s) - 1) = last (rtrim s)"
proof -
  assume ne: "rtrim s \<noteq> []"
  have "rtrim s ! (length (rtrim s) - 1) = last (rtrim s)"
    using ne by (simp add: last_conv_nth)
  moreover have "rtrim s ! (length (rtrim s) - 1) = s ! (length (rtrim s) - 1)"
    using ne rtrim_prefix [of s] by (metis diff_less length_greater_0_conv nth_take zero_less_one)
  ultimately show ?thesis by simp
qed

lemma trim_common:
  assumes t: "terminated b p0"
  defines "p \<equiv> p0 + length (takeWhile isspace (cstr b p0))"
  shows "skip_leading b p0 = p" and "cstr b p = ltrim (cstr b p0)" and "terminated b p"
proof -
  have k: "length (takeWhile isspace (cstr b p0)) \<le> strlen b p0"
    unfolding strlen_def by (rule length_takeWhile_le)
  show "skip_leading b p0 = p"
    using t by (simp add: skip_leading_eq p_def)
  show "cstr b p = ltrim (cstr b p0)"
    using k by (simp add: p_def cstr_add ltrim_eq_drop)
  have "p \<le> p0 + strlen b p0" using k by (simp add: p_def)
  then show "terminated b p"
    using t by (intro terminated_within [of b p0 p]) (simp_all add: p_def)
qed

text \<open>The case where something other than white space is left: where the backward
  scan stops, and that the byte before the new terminator is not a carriage return.\<close>

lemma trim_nonblank:
  assumes t: "terminated b p0" and False: "ltrim (cstr b p0) \<noteq> []"
  defines "p \<equiv> p0 + length (takeWhile isspace (cstr b p0))"
  defines "L \<equiv> length (trim_spec (cstr b p0))"
  shows "b ! p \<noteq> NUL"
    and "Suc (skip_trailing b p (p + strlen b p - 1)) = p + L"
    and "(b[p + L := NUL]) ! (p + strlen (b[p + L := NUL]) p - 1) \<noteq> CR"
    and "trim_spec (cstr b p0) \<noteq> []"
proof -
  let ?s = "ltrim (cstr b p0)"
  have cs: "cstr b p = ?s" and tp: "terminated b p"
    using trim_common [OF t] by (simp_all add: p_def)
  have lt: "p < length b" using tp by (rule terminated_less)
  show bp: "b ! p \<noteq> NUL" using False cs lt by (auto simp: cstr_NUL)
  have hd: "\<not> isspace (hd ?s)" using False by (rule ltrim_hd)
  then have rne: "rtrim ?s \<noteq> []"
    using False rtrim_Cons_nonspace by (cases ?s) auto
  then show "trim_spec (cstr b p0) \<noteq> []" by (simp add: trim_spec_def)
  let ?L = "length (rtrim ?s)"
  have LL: "L = ?L" by (simp add: L_def trim_spec_def)
  have L: "0 < ?L" "?L \<le> length ?s"
    using rne rtrim_length_le by auto
  have len: "strlen b p = length ?s" by (simp add: strlen_def cs)
  have "skip_trailing b p (p + strlen b p - 1) =
      p + length (rtrim (take (Suc (p + strlen b p - 1 - p)) (cstr b p))) - 1"
  proof (rule skip_trailing_eq)
    show "cstr b p \<noteq> []" using False cs by simp
    show "\<not> isspace (hd (cstr b p))" using hd cs by simp
    show "p \<le> p + strlen b p - 1" using L len by linarith
    show "p + strlen b p - 1 < p + strlen b p" using L len by linarith
  qed
  also have "Suc (p + strlen b p - 1 - p) = length ?s"
    using False len by simp
  finally show "Suc (skip_trailing b p (p + strlen b p - 1)) = p + L"
    using L by (simp add: cs LL)
  have end_lt: "p + ?L < length b"
    using terminated_end(1) [OF tp] L len by simp
  let ?b1 = "b[p + ?L := NUL]"
  have c1: "cstr ?b1 p = rtrim ?s"
    using end_lt by (simp add: cstr_update_NUL cs rtrim_prefix)
  obtain n where n: "?L = Suc n" using L(1) by (cases ?L) auto
  have "strlen ?b1 p = Suc n" by (simp add: strlen_def c1 n [symmetric])
  then have "?b1 ! (p + strlen ?b1 p - 1) = ?b1 ! (p + n)" by simp
  also have "\<dots> = b ! (p + n)" using n by simp
  also have "\<dots> = ?s ! n"
    using cstr_nth [of n b p] L n by (simp add: cs)
  also have "\<dots> = last (rtrim ?s)"
    using rtrim_nth_last [OF rne] n by simp
  finally show "(b[p + L := NUL]) ! (p + strlen (b[p + L := NUL]) p - 1) \<noteq> CR"
    using rtrim_last [OF rne] by (auto simp: LL)
qed

text \<open>The exact effect of \<open>trim_whitespace\<close>: the returned pointer is past the
  leading white space, and the buffer is unchanged when nothing but white space
  is left, otherwise it has one NUL written right after the trimmed string.\<close>

theorem trim_whitespace_eq:
  assumes t: "terminated b p0"
  defines "p \<equiv> p0 + length (takeWhile isspace (cstr b p0))"
  shows "trim_whitespace b p0 =
    (if trim_spec (cstr b p0) = [] then (b, p)
     else (b[p + length (trim_spec (cstr b p0)) := NUL], p))"
proof (cases "ltrim (cstr b p0) = []")
  case True
  have sl: "skip_leading b p0 = p" and cs: "cstr b p = ltrim (cstr b p0)"
    and tp: "terminated b p"
    using trim_common [OF t] by (simp_all add: p_def)
  have "b ! p = NUL"
    using True cs terminated_less [OF tp] by (auto simp: cstr_unfold split: if_splits)
  with True sl show ?thesis by (simp add: trim_whitespace_def trim_spec_def)
next
  case False
  have sl: "skip_leading b p0 = p" using trim_common [OF t] by (simp add: p_def)
  from trim_nonblank [OF t False] sl show ?thesis
    by (simp add: trim_whitespace_def Let_def p_def)
qed

lemma trim_spec_Nil_ltrim: "trim_spec s = [] \<Longrightarrow> ltrim s = []"
  using ltrim_hd [of s] rtrim_Cons_nonspace by (cases "ltrim s") (auto simp: trim_spec_def)

lemma trim_spec_prefix: "trim_spec s = take (length (trim_spec s)) (ltrim s)"
  by (simp add: trim_spec_def rtrim_prefix)

lemma length_trim_spec: "length (trim_spec s) \<le> length (ltrim s)"
  by (simp add: trim_spec_def rtrim_length_le)

text \<open>Everything the callers need: the string at the returned pointer is the
  trimmed string, it is terminated, the buffer keeps its size, the pointer moves
  forward inside the old string, and the buffer is either unchanged or has one NUL
  written inside the old string or onto its terminator.\<close>

lemma trim_whitespace_facts:
  assumes t: "terminated b p" and r: "trim_whitespace b p = (b', p')"
  shows "cstr b' p' = trim_spec (cstr b p)" and "terminated b' p'"
    and "length b' = length b" and "p \<le> p'" and "p' \<le> p + strlen b p"
    and "\<exists>k. p' \<le> k \<and> k \<le> p + strlen b p \<and> (b' = b \<or> b' = b[k := NUL])"
proof -
  let ?t = "trim_spec (cstr b p)"
  let ?k = "length (takeWhile isspace (cstr b p))"
  have pp: "p' = p + ?k" and bb: "b' = (if ?t = [] then b else b[p' + length ?t := NUL])"
    using r trim_whitespace_eq [OF t] by (auto split: if_splits)
  have kl: "?k \<le> strlen b p"
    unfolding strlen_def by (rule length_takeWhile_le)
  have cs: "cstr b p' = ltrim (cstr b p)"
    using kl by (simp add: pp cstr_add ltrim_eq_drop)
  have lt: "length ?t \<le> strlen b p - ?k"
    using length_trim_spec [of "cstr b p"] by (simp add: ltrim_eq_drop strlen_def)
  have endb: "p + strlen b p < length b" using t by (rule terminated_end)
  show "p \<le> p'" and "p' \<le> p + strlen b p" using kl by (simp_all add: pp)
  have tp': "terminated b p'"
    using t kl by (intro terminated_within [of b p p']) (simp_all add: pp)
  show "length b' = length b" by (simp add: bb)
  show "cstr b' p' = ?t"
  proof (cases "?t = []")
    case True
    then show ?thesis by (simp add: bb cs trim_spec_Nil_ltrim)
  next
    case False
    have "p' + length ?t < length b" using lt kl endb by (simp add: pp)
    then show ?thesis
      using False trim_spec_prefix [of "cstr b p"] by (simp add: bb cstr_update_NUL cs)
  qed
  show "terminated b' p'"
    using tp' lt kl endb by (auto simp: bb pp intro: terminated_update_NUL)
  show "\<exists>k. p' \<le> k \<and> k \<le> p + strlen b p \<and> (b' = b \<or> b' = b[k := NUL])"
    using lt kl by (intro exI [of _ "p' + length ?t"]) (auto simp: bb pp)
qed

text \<open>C24: The carriage-return step of \<^verbatim>\<open>trim_whitespace\<close> never fires: after the
  backward scan the last byte of the string is not white space, and a carriage
  return is white space.\<close>

lemma trim_whitespace_cr_dead:
  assumes t: "terminated b p0" and ne: "b ! skip_leading b p0 \<noteq> NUL"
  shows "(let str = skip_leading b p0;
              b1 = b[Suc (skip_trailing b str (str + strlen b str - 1)) := NUL]
          in b1 ! (str + strlen b1 str - 1) \<noteq> CR)"
proof -
  let ?p = "p0 + length (takeWhile isspace (cstr b p0))"
  have sl: "skip_leading b p0 = ?p" and cs: "cstr b ?p = ltrim (cstr b p0)"
    and tp: "terminated b ?p"
    using trim_common [OF t] by simp_all
  have "ltrim (cstr b p0) \<noteq> []"
    using ne sl cs terminated_less [OF tp] by (auto simp: cstr_Cons)
  from trim_nonblank [OF t this] sl show ?thesis by (simp add: Let_def)
qed

lemma trim_spec_split:
  "\<exists>l r. s = l @ trim_spec s @ r \<and> (\<forall>c\<in>set l. isspace c) \<and> (\<forall>c\<in>set r. isspace c)"
proof (intro exI conjI)
  let ?x = "dropWhile isspace s"
  let ?r = "rev (takeWhile isspace (rev ?x))"
  have "rtrim ?x @ ?r = ?x" by (simp add: rtrim_def flip: rev_append)
  then show "s = takeWhile isspace s @ trim_spec s @ ?r"
    by (simp add: trim_spec_def ltrim_def)
  show "\<forall>c\<in>set (takeWhile isspace s). isspace c" by (auto dest: set_takeWhileD)
  show "\<forall>c\<in>set ?r. isspace c" by (auto dest: set_takeWhileD)
qed

lemma trim_spec_ends:
  "trim_spec s \<noteq> [] \<Longrightarrow> \<not> isspace (hd (trim_spec s)) \<and> \<not> isspace (last (trim_spec s))"
proof -
  assume ne: "trim_spec s \<noteq> []"
  then have l: "ltrim s \<noteq> []" by (auto simp: trim_spec_def)
  have "0 < length (trim_spec s)" using ne by simp
  then have "hd (take (length (trim_spec s)) (ltrim s)) = hd (ltrim s)" by (rule hd_take)
  then have "hd (trim_spec s) = hd (ltrim s)"
    using trim_spec_prefix [of s] by simp
  then show ?thesis
    using ltrim_hd [OF l] rtrim_last ne by (simp add: trim_spec_def)
qed

lemma takeWhile_trim_spec [simp]: "takeWhile isspace (trim_spec s) = []"
proof (cases "trim_spec s")
  case (Cons c cs)
  then have "\<not> isspace c" using trim_spec_ends [of s] by simp
  with Cons show ?thesis by simp
qed simp

lemma ltrim_trim_spec [simp]: "ltrim (trim_spec s) = trim_spec s"
  using ltrim_rtrim [of s] by (simp add: trim_spec_def)

text \<open>Frame: beyond the end of the string it trims, \<open>trim_whitespace\<close> changes
  nothing.\<close>

lemma trim_whitespace_frame:
  assumes t: "terminated b p" and r: "trim_whitespace b p = (b', p')" and q: "p + strlen b p < q"
  shows "cstr b' q = cstr b q" and "terminated b q \<Longrightarrow> terminated b' q"
proof -
  obtain k where k: "k \<le> p + strlen b p" and bb: "b' = b \<or> b' = b[k := NUL]"
    using trim_whitespace_facts(6) [OF t r] by blast
  show "cstr b' q = cstr b q" using bb k q by (auto simp: cstr_update_before)
  show "terminated b q \<Longrightarrow> terminated b' q" using bb k q by (auto intro: terminated_update_before)
qed

lemma trim_spec_snoc_space:
  assumes "x \<noteq> []" and "\<not> isspace (hd x)" and "\<not> isspace (last x)" and "isspace c"
  shows "trim_spec (x @ [c]) = x"
proof -
  obtain a as where x: "x = a # as" using assms(1) by (cases x) auto
  have "rtrim x = x" using rtrim_snoc [of "butlast x" "last x"] assms(1,3) by simp
  then have "rtrim (x @ [c]) = x" using rtrim_snoc [of x c] assms(4) by simp
  moreover have "ltrim (x @ [c]) = x @ [c]" using assms(2) by (simp add: ltrim_def x)
  ultimately show ?thesis by (simp add: trim_spec_def)
qed

section \<open>Properties of trim_whitespace\<close>

theorem trim_whitespace_cr_dead_witness:
  "terminated (''ab '' @ [CR, NUL]) 0 \<and> (''ab '' @ [CR, NUL]) ! skip_leading (''ab '' @ [CR, NUL]) 0 \<noteq> NUL \<and>
   (let str = skip_leading (''ab '' @ [CR, NUL]) 0;
        b1 = (''ab '' @ [CR, NUL])[Suc (skip_trailing (''ab '' @ [CR, NUL]) str (str + strlen (''ab '' @ [CR, NUL]) str - 1)) := NUL]
    in b1 ! (str + strlen b1 str - 1) \<noteq> CR)"
proof -
  have t: "terminated (''ab '' @ [CR, NUL]) 0" by (simp add: terminated_def)
  have n: "(''ab '' @ [CR, NUL]) ! skip_leading (''ab '' @ [CR, NUL]) 0 \<noteq> NUL"
    by (simp add: skip_leading.simps isspace_def)
  from t n trim_whitespace_cr_dead [OF t n] show ?thesis by simp
qed

text \<open>C4: Refinement: on a terminated string the C function computes \<open>trim_spec\<close>,
  leaves a terminated string at the returned pointer and keeps the buffer's size.\<close>

theorem trim_whitespace_refines:
  "terminated b p \<Longrightarrow>
     (case trim_whitespace b p of (b', p') \<Rightarrow>
        cstr b' p' = trim_spec (cstr b p) \<and> terminated b' p' \<and> length b' = length b)"
  using trim_whitespace_facts(1-3) by (auto split: prod.split)

theorem trim_whitespace_refines_witness:
  "terminated (''  ab '' @ [NUL]) 0 \<and>
   cstr (fst (trim_whitespace (''  ab '' @ [NUL]) 0)) (snd (trim_whitespace (''  ab '' @ [NUL]) 0)) = ''ab''"
proof -
  have t: "terminated (''  ab '' @ [NUL]) 0" by (simp add: terminated_def)
  have "trim_spec (cstr (''  ab '' @ [NUL]) 0) = ''ab''"
    by (simp add: trim_spec_def ltrim_def rtrim_def isspace_def cstr_def)
  with trim_whitespace_refines [OF t] t show ?thesis by (simp split: prod.splits)
qed

text \<open>C16: The contract of the spec (4.1): the result is the input with a run of white
  space removed at each end, and it neither starts nor ends with white space.\<close>

theorem trim_whitespace_contract:
  "terminated b p \<Longrightarrow>
     (case trim_whitespace b p of (b', p') \<Rightarrow>
        (\<exists>l r. cstr b p = l @ cstr b' p' @ r \<and> (\<forall>c\<in>set l. isspace c) \<and> (\<forall>c\<in>set r. isspace c)) \<and>
        (cstr b' p' = [] \<or> \<not> isspace (hd (cstr b' p')) \<and> \<not> isspace (last (cstr b' p'))))"
  using trim_whitespace_facts(1) trim_spec_split trim_spec_ends by (fastforce split: prod.split)

theorem trim_whitespace_contract_witness:
  "terminated (''\<newline> x y\<newline>'' @ [NUL]) 0 \<and>
   (case trim_whitespace (''\<newline> x y\<newline>'' @ [NUL]) 0 of (b', p') \<Rightarrow>
      (\<exists>l r. cstr (''\<newline> x y\<newline>'' @ [NUL]) 0 = l @ cstr b' p' @ r \<and>
        (\<forall>c\<in>set l. isspace c) \<and> (\<forall>c\<in>set r. isspace c)) \<and>
      (cstr b' p' = [] \<or> \<not> isspace (hd (cstr b' p')) \<and> \<not> isspace (last (cstr b' p'))))"
proof -
  have t: "terminated (''\<newline> x y\<newline>'' @ [NUL]) 0" by (simp add: terminated_def)
  with trim_whitespace_contract [OF t] show ?thesis by simp
qed

text \<open>C15: Idempotence, on the buffer: trimming the result again writes nothing and does
  not move the pointer.\<close>

theorem trim_whitespace_idem:
  assumes t: "terminated b p"
  shows "(case trim_whitespace b p of (b', p') \<Rightarrow> trim_whitespace b' p' = (b', p'))"
proof (cases "trim_whitespace b p")
  case (Pair b' p')
  have c: "cstr b' p' = trim_spec (cstr b p)" and t': "terminated b' p'"
    using trim_whitespace_facts(1,2) [OF t Pair] .
  have e: "b' ! (p' + strlen b' p') = NUL"
    using t' by (rule terminated_end)
  have "trim_whitespace b' p' =
      (if trim_spec (cstr b' p') = [] then (b', p')
       else (b'[p' + length (trim_spec (cstr b' p')) := NUL], p'))"
    using trim_whitespace_eq [OF t'] c by simp
  moreover have "b'[p' + strlen b' p' := NUL] = b'"
    using e by (metis list_update_id)
  ultimately have "trim_whitespace b' p' = (b', p')"
    using c by (simp add: trim_spec_idem strlen_def)
  then show ?thesis by (simp add: Pair)
qed

theorem trim_whitespace_idem_witness:
  "terminated ('' k '' @ [NUL, CHR ''z'', NUL]) 0 \<and>
   (case trim_whitespace ('' k '' @ [NUL, CHR ''z'', NUL]) 0 of (b', p') \<Rightarrow>
      trim_whitespace b' p' = (b', p'))"
proof -
  have t: "terminated ('' k '' @ [NUL, CHR ''z'', NUL]) 0" by (simp add: terminated_def)
  with trim_whitespace_idem [OF t] show ?thesis by simp
qed

end
