(* ===== verification/Value.thy ===== *)
theory Value
  imports Trim
begin

text \<open>
  \<^verbatim>\<open>parse_value\<close> of \<^verbatim>\<open>src/dotenv.c\<close>. It trims the value in place; a value
  starting with a double quote is decoded byte by byte into the output buffer
  (escapes \<open>\n\<close>, \<open>\r\<close>, \<open>\t\<close>, any other escaped byte stands for itself, an
  unescaped quote ends the value, the end of the string ends it too); any other
  value is cut at the first \<open>#\<close>, trimmed again and copied with \<^verbatim>\<open>strncpy\<close>.
  \<open>decode_quoted\<close> is the decoding loop with its write pointer; \<open>decode\<close> and
  \<open>parse_value_spec\<close> are the string-level reference; \<open>decode_step\<close> is the
  state machine of the spec (4.5) as an inductive relation. The lemmas show the
  loop computes the reference and the state machine, that the write pointer
  stays inside the output buffer, that quoting with escapes round-trips, and
  how comments are stripped.
\<close>

section \<open>The C function\<close>

text \<open>The \<^verbatim>\<open>switch\<close> on the escaped byte.\<close>

definition unescape :: "char \<Rightarrow> char" where
  "unescape c = (if c = CHR ''n'' then LF else if c = CHR ''r'' then CR
                 else if c = CHR ''t'' then TAB else c)"

text \<open>The \<^verbatim>\<open>while (*value)\<close> loop of the quoted branch: input pointer \<open>i\<close>,
  output buffer \<open>out\<close>, write pointer \<open>w\<close>, flag \<open>escaped\<close>. It returns the
  output buffer and the final write pointer, where the caller stores the NUL.\<close>

function decode_quoted :: "cbuf \<Rightarrow> nat \<Rightarrow> cbuf \<Rightarrow> nat \<Rightarrow> bool \<Rightarrow> cbuf \<times> nat" where
  "decode_quoted v i out w escaped =
     (if i < length v \<and> v ! i \<noteq> NUL then
        (if v ! i = BACKSLASH \<and> \<not> escaped then decode_quoted v (Suc i) out w True
         else if v ! i = DQUOTE \<and> \<not> escaped then (out, w)
         else if escaped then decode_quoted v (Suc i) (out[w := unescape (v ! i)]) (Suc w) False
         else decode_quoted v (Suc i) (out[w := v ! i]) (Suc w) escaped)
      else (out, w))"
  by pat_completeness auto
termination
  by (relation "measure (\<lambda>(v, i, out, w, e). length v - i)") auto

declare decode_quoted.simps [simp del]

text \<open>\<open>parse_value value output\<close>: the line buffer and the output buffer after
  the call.\<close>

definition parse_value :: "cbuf \<Rightarrow> nat \<Rightarrow> cbuf \<Rightarrow> cbuf \<times> cbuf" where
  "parse_value b value output =
     (case trim_whitespace b value of (b1, v) \<Rightarrow>
        if b1 ! v = DQUOTE then
          (case decode_quoted b1 (Suc v) output 0 False of (out1, w) \<Rightarrow> (b1, out1[w := NUL]))
        else
          (let b2 = (case strchr b1 v CHR ''#'' of Some c \<Rightarrow> b1[c := NUL] | None \<Rightarrow> b1)
           in case trim_whitespace b2 v of (b3, v3) \<Rightarrow>
                (b3, (strncpy output b3 v3 (LINE_SIZE - 1))[LINE_SIZE - 1 := NUL])))"

section \<open>What it promises\<close>

fun decode :: "bool \<Rightarrow> string \<Rightarrow> string" where
  "decode esc [] = []"
| "decode esc (c # s) =
     (if c = BACKSLASH \<and> \<not> esc then decode True s
      else if c = DQUOTE \<and> \<not> esc then []
      else if esc then unescape c # decode False s
      else c # decode False s)"

definition parse_value_spec :: "string \<Rightarrow> string" where
  "parse_value_spec s =
     (let t = trim_spec s in
      if t \<noteq> [] \<and> hd t = DQUOTE then decode False (tl t)
      else take (LINE_SIZE - 1) (trim_spec (takeWhile (\<lambda>c. c \<noteq> CHR ''#'') t)))"

text \<open>The decoder's state machine (spec 4.5): inside the quotes, after a
  backslash, after the closing quote. A run reads a string byte by byte and
  accumulates the output.\<close>

datatype dstate = Quoted | Quoted_escaped | Closed

inductive decode_step :: "dstate \<times> string \<Rightarrow> char \<Rightarrow> dstate \<times> string \<Rightarrow> bool" where
  plain: "c \<noteq> BACKSLASH \<Longrightarrow> c \<noteq> DQUOTE \<Longrightarrow> decode_step (Quoted, out) c (Quoted, out @ [c])"
| backslash: "decode_step (Quoted, out) BACKSLASH (Quoted_escaped, out)"
| close: "decode_step (Quoted, out) DQUOTE (Closed, out)"
| escaped: "decode_step (Quoted_escaped, out) c (Quoted, out @ [unescape c])"
| after: "decode_step (Closed, out) c (Closed, out)"

inductive decode_run :: "dstate \<times> string \<Rightarrow> string \<Rightarrow> dstate \<times> string \<Rightarrow> bool" where
  stop: "decode_run s [] s"
| step: "decode_step s c s' \<Longrightarrow> decode_run s' cs s'' \<Longrightarrow> decode_run s (c # cs) s''"

inductive_cases decode_run_NilE: "decode_run s [] s'"
inductive_cases decode_run_ConsE: "decode_run s (c # cs) s'"
inductive_simps decode_step_simps: "decode_step s c s'"

text \<open>Quoting a value with escapes: what a writer of \<^verbatim>\<open>.env\<close> files does.\<close>

definition escape_char :: "char \<Rightarrow> string" where
  "escape_char c =
     (if c = BACKSLASH then [BACKSLASH, BACKSLASH]
      else if c = DQUOTE then [BACKSLASH, DQUOTE]
      else if c = LF then [BACKSLASH, CHR ''n'']
      else if c = CR then [BACKSLASH, CHR ''r'']
      else if c = TAB then [BACKSLASH, CHR ''t'']
      else [c])"

definition quote_value :: "string \<Rightarrow> string" where
  "quote_value v = DQUOTE # concat (map escape_char v) @ [DQUOTE]"

section \<open>Lemmas\<close>

lemma unescape_NUL_iff [simp]: "unescape c = NUL \<longleftrightarrow> c = NUL"
  by (simp add: unescape_def)

lemma NUL_notin_decode: "NUL \<notin> set s \<Longrightarrow> NUL \<notin> set (decode esc s)"
  by (induction esc s rule: decode.induct) (auto simp: unescape_def)

lemma length_decode: "length (decode esc s) \<le> length s"
  by (induction esc s rule: decode.induct) auto

lemma memwrite_Nil [simp]: "memwrite b i [] = b"
  by (simp add: memwrite_def)

lemma memwrite_Cons:
  "w < length out \<Longrightarrow> memwrite (out[w := x]) (Suc w) ys = memwrite out w (x # ys)"
  by (simp add: memwrite_def upd_conv_take_nth_drop ac_simps)

lemma decode_quoted_eq:
  "terminated v i \<Longrightarrow> w + length (decode esc (cstr v i)) \<le> length out \<Longrightarrow>
     decode_quoted v i out w esc =
       (memwrite out w (decode esc (cstr v i)), w + length (decode esc (cstr v i)))"
proof (induction v i out w esc rule: decode_quoted.induct)
  case (1 v i out w esc)
  have lt: "i < length v" using "1.prems"(1) by (rule terminated_less)
  show ?case
  proof (cases "v ! i = NUL")
    case True
    with lt show ?thesis by (simp add: decode_quoted.simps [of v i] cstr_NUL)
  next
    case False
    have t: "terminated v (Suc i)" using "1.prems"(1) False by (rule terminated_Suc)
    have cs: "cstr v i = v ! i # cstr v (Suc i)" using lt False by (rule cstr_Cons)
    let ?c = "v ! i" and ?s = "cstr v (Suc i)"
    consider (bs) "?c = BACKSLASH \<and> \<not> esc" | (dq) "\<not> (?c = BACKSLASH \<and> \<not> esc)" "?c = DQUOTE \<and> \<not> esc"
      | (es) "\<not> (?c = BACKSLASH \<and> \<not> esc)" "\<not> (?c = DQUOTE \<and> \<not> esc)" "esc"
      | (pl) "\<not> (?c = BACKSLASH \<and> \<not> esc)" "\<not> (?c = DQUOTE \<and> \<not> esc)" "\<not> esc"
      by blast
    then show ?thesis
    proof cases
      case bs
      then show ?thesis
        using "1.IH"(1) [OF _ bs t] lt False "1.prems"(2)
        by (simp add: decode_quoted.simps [of v i] cs)
    next
      case dq
      then show ?thesis using lt False by (simp add: decode_quoted.simps [of v i] cs)
    next
      case es
      have w: "w < length out" using "1.prems"(2) es by (simp add: cs)
      show ?thesis
        using "1.IH"(2) [OF _ es t] lt False "1.prems"(2) es w
        by (simp add: decode_quoted.simps [of v i] cs memwrite_Cons)
    next
      case pl
      have w: "w < length out" using "1.prems"(2) pl by (simp add: cs)
      show ?thesis
        using "1.IH"(3) [OF _ pl t] lt False "1.prems"(2) pl w
        by (simp add: decode_quoted.simps [of v i] cs memwrite_Cons)
    qed
  qed
qed

lemma length_trim_spec_le: "length (trim_spec s) \<le> length s"
  using length_trim_spec [of s] by (simp add: ltrim_def) (meson le_trans length_dropWhile_le)

text \<open>The central fact about \<open>parse_value\<close>: for a terminated value shorter than
  the output buffer, the output holds \<open>parse_value_spec\<close> of the value.\<close>

lemma parse_value_cstr:
  assumes t: "terminated b p" and lo: "length out = LINE_SIZE" and sl: "strlen b p < LINE_SIZE"
    and r: "parse_value b p out = (b', out')"
  shows "cstr out' 0 = parse_value_spec (cstr b p)" and "length out' = LINE_SIZE"
    and "length b' = length b"
proof -
  obtain b1 v where tw: "trim_whitespace b p = (b1, v)" by (cases "trim_whitespace b p")
  let ?t = "trim_spec (cstr b p)"
  have c1: "cstr b1 v = ?t" and t1: "terminated b1 v" and l1: "length b1 = length b"
    using trim_whitespace_facts(1-3) [OF t tw] by simp_all
  have v1: "v < length b1" using t1 by (rule terminated_less)
  have lt: "length ?t < LINE_SIZE"
    using sl length_trim_spec_le [of "cstr b p"] by (simp add: strlen_def)
  have "cstr out' 0 = parse_value_spec (cstr b p) \<and> length out' = LINE_SIZE \<and> length b' = length b"
  proof (cases "b1 ! v = DQUOTE")
    case True
    then have ht: "?t \<noteq> [] \<and> hd ?t = DQUOTE"
      using v1 c1 [symmetric] by (simp add: cstr_Cons)
    have ts: "terminated b1 (Suc v)" using t1 True by (intro terminated_Suc) simp_all
    have cs: "cstr b1 (Suc v) = tl ?t" using t1 True c1 by (simp add: terminated_cstr_tl)
    let ?d = "decode False (tl ?t)"
    have ld: "length ?d < LINE_SIZE"
      using length_decode [of False "tl ?t"] lt by simp
    have dq: "decode_quoted b1 (Suc v) out 0 False = (memwrite out 0 ?d, length ?d)"
      using decode_quoted_eq [OF ts, of 0 False out] ld lo cs by simp
    have nn: "NUL \<notin> set ?d"
      using NUL_notin_cstr [of b1 "Suc v"] cs by (intro NUL_notin_decode) simp
    have "out' = (memwrite out 0 ?d)[length ?d := NUL]" and "b' = b1"
      using r tw True dq by (simp_all add: parse_value_def)
    then show ?thesis
      using cstr_memwrite_NUL [OF nn] ld lo ht l1
      by (simp add: parse_value_spec_def length_memwrite)
  next
    case False
    have "cstr b1 v = [] \<or> hd (cstr b1 v) = b1 ! v"
      using v1 by (cases "b1 ! v = NUL") (auto simp: cstr_NUL cstr_Cons)
    then have "?t = [] \<or> hd ?t = b1 ! v" by (simp add: c1)
    then have nq: "\<not> (?t \<noteq> [] \<and> hd ?t = DQUOTE)" using False by auto
    define b2 where "b2 = (case strchr b1 v CHR ''#'' of Some c \<Rightarrow> b1[c := NUL] | None \<Rightarrow> b1)"
    have c2: "cstr b2 v = takeWhile (\<lambda>x. x \<noteq> CHR ''#'') ?t" and t2: "terminated b2 v"
      and l2: "length b2 = length b1"
      using strchr_cut [OF t1, of "CHR ''#''"] c1 by (simp_all add: b2_def)
    obtain b3 v3 where tw3: "trim_whitespace b2 v = (b3, v3)" by (cases "trim_whitespace b2 v")
    have c3: "cstr b3 v3 = trim_spec (takeWhile (\<lambda>x. x \<noteq> CHR ''#'') ?t)"
      and l3: "length b3 = length b2"
      using trim_whitespace_facts(1,3) [OF t2 tw3] c2 by simp_all
    have "parse_value b p out = (b3, (strncpy out b3 v3 (LINE_SIZE - 1))[LINE_SIZE - 1 := NUL])"
      using tw False tw3 by (simp add: parse_value_def b2_def [symmetric])
    then have "out' = (strncpy out b3 v3 (LINE_SIZE - 1))[LINE_SIZE - 1 := NUL]" and "b' = b3"
      using r by simp_all
    then show ?thesis
      using cstr_strncpy_term [of "LINE_SIZE - 1" out b3 v3] lo nq c3 l3 l2 l1
        length_strncpy [of "LINE_SIZE - 1" out b3 v3]
      by (auto simp: parse_value_spec_def Let_def LINE_SIZE_def)
  qed
  then show "cstr out' 0 = parse_value_spec (cstr b p)" and "length out' = LINE_SIZE"
    and "length b' = length b" by simp_all
qed

lemma decode_escaped:
  "decode False (concat (map escape_char v) @ DQUOTE # r) = v"
proof (induction v)
  case Nil
  then show ?case by simp
next
  case (Cons c v)
  then show ?case by (simp add: escape_char_def unescape_def)
qed

lemma trim_spec_id:
  assumes "s \<noteq> []" and "\<not> isspace (hd s)" and "\<not> isspace (last s)"
  shows "trim_spec s = s"
proof -
  have l: "ltrim s = s" using assms(1,2) by (cases s) (simp_all add: ltrim_def)
  have "rtrim s = s" using assms(1,3) by (cases s rule: rev_cases) (simp_all add: rtrim_snoc)
  with l show ?thesis by (simp add: trim_spec_def)
qed

lemma parse_value_spec_quote: "parse_value_spec (quote_value v) = v"
proof -
  have "trim_spec (quote_value v) = quote_value v"
    by (rule trim_spec_id) (simp_all add: quote_value_def isspace_def)
  then show ?thesis
    by (simp add: parse_value_spec_def quote_value_def decode_escaped)
qed

lemma decode_escape_append:
  "decode False (concat (map escape_char v) @ r) = v @ decode False r"
  by (induction v) (simp_all add: escape_char_def unescape_def)

text \<open>A quoted value whose closing quote is missing is decoded up to the end
  of the line (spec 4.2: end of input ends the value, it is not an error).\<close>

lemma parse_value_spec_open:
  assumes "\<not> isspace (last (DQUOTE # concat (map escape_char v)))"
  shows "parse_value_spec (DQUOTE # concat (map escape_char v)) = v"
proof -
  have "trim_spec (DQUOTE # concat (map escape_char v)) = DQUOTE # concat (map escape_char v)"
    using assms by (intro trim_spec_id) (simp_all add: isspace_def)
  then show ?thesis using decode_escape_append [of v "[]"] by (simp add: parse_value_spec_def)
qed

lemma NUL_notin_escape: "NUL \<notin> set v \<Longrightarrow> NUL \<notin> set (quote_value v)"
  by (auto simp: quote_value_def escape_char_def split: if_splits)

lemma length_parse_value_spec: "length s < LINE_SIZE \<Longrightarrow> length (parse_value_spec s) < LINE_SIZE"
  using length_decode [of False "tl (trim_spec s)"] length_trim_spec_le [of s]
  by (auto simp: parse_value_spec_def Let_def LINE_SIZE_def)

text \<open>A plain unquoted value (no \<open>#\<close>, no blanks at its ends, not
  starting with a quote, shorter than the output buffer) is taken as it is.\<close>

lemma parse_value_spec_plain:
  assumes "v \<noteq> []" and "\<not> isspace (hd v)" and "\<not> isspace (last v)" and "hd v \<noteq> DQUOTE"
    and "CHR ''#'' \<notin> set v" and "length v < LINE_SIZE"
  shows "parse_value_spec v = v"
proof -
  have tv: "trim_spec v = v" using assms(1-3) by (rule trim_spec_id)
  have tw: "takeWhile (\<lambda>x. x \<noteq> CHR ''#'') v = v" using assms(5) by (auto simp: takeWhile_eq_all_conv)
  show ?thesis using assms(4,6) by (simp add: parse_value_spec_def Let_def tv tw LINE_SIZE_def)
qed

subsection \<open>The state machine\<close>

abbreviation qstate :: "bool \<Rightarrow> dstate" where
  "qstate esc \<equiv> (if esc then Quoted_escaped else Quoted)"

lemma decode_run_Closed: "decode_run (Closed, acc) s (st, out) \<Longrightarrow> out = acc"
  by (induction s arbitrary: st out) (auto elim: decode_run_NilE decode_run_ConsE simp: decode_step_simps)

lemma decode_run_decode:
  "decode_run (qstate esc, acc) s (st, out) \<Longrightarrow> out = acc @ decode esc s"
proof (induction s arbitrary: esc acc)
  case Nil
  then show ?case by (auto elim: decode_run_NilE)
next
  case (Cons c s)
  from Cons.prems obtain s' where st: "decode_step (qstate esc, acc) c s'"
    and run: "decode_run s' s (st, out)" by (auto elim: decode_run_ConsE)
  show ?case
  proof (cases esc)
    case True
    with st have "s' = (Quoted, acc @ [unescape c])" by (simp add: decode_step_simps)
    with run Cons.IH [of False "acc @ [unescape c]"] True show ?thesis by simp
  next
    case False
    show ?thesis
    proof (cases "c = BACKSLASH")
      case True
      with st False have "s' = (Quoted_escaped, acc)" by (auto simp: decode_step_simps)
      with run Cons.IH [of True acc] True False show ?thesis by simp
    next
      case nb: False
      show ?thesis
      proof (cases "c = DQUOTE")
        case True
        with st False have "s' = (Closed, acc)" by (auto simp: decode_step_simps)
        with run True False show ?thesis by (simp add: decode_run_Closed)
      next
        case nq: False
        with st False nb have "s' = (Quoted, acc @ [c])" by (auto simp: decode_step_simps)
        with run Cons.IH [of False "acc @ [c]"] False nb nq show ?thesis by simp
      qed
    qed
  qed
qed

lemma decode_run_Closed_total: "decode_run (Closed, acc) s (Closed, acc)"
  by (induction s) (auto intro: decode_run.intros decode_step.intros)

lemma decode_run_exists: "\<exists>st. decode_run (qstate esc, acc) s (st, acc @ decode esc s)"
proof (induction s arbitrary: esc acc)
  case Nil
  then show ?case by (auto intro: decode_run.stop)
next
  case (Cons c s)
  show ?case
  proof (cases esc)
    case True
    from Cons.IH [of False "acc @ [unescape c]"] obtain st
      where "decode_run (Quoted, acc @ [unescape c]) s (st, acc @ [unescape c] @ decode False s)"
      by auto
    with True show ?thesis by (auto intro: decode_run.step decode_step.escaped)
  next
    case False
    consider "c = BACKSLASH" | "c \<noteq> BACKSLASH" "c = DQUOTE" | "c \<noteq> BACKSLASH" "c \<noteq> DQUOTE"
      by blast
    then show ?thesis
    proof cases
      case 1
      from Cons.IH [of True acc] obtain st where "decode_run (Quoted_escaped, acc) s (st, acc @ decode True s)"
        by auto
      with 1 False show ?thesis by (auto intro: decode_run.step decode_step.backslash)
    next
      case 2
      with False decode_run_Closed_total [of acc s] show ?thesis
        by (auto intro: decode_run.step decode_step.close)
    next
      case 3
      from Cons.IH [of False "acc @ [c]"] obtain st
        where "decode_run (Quoted, acc @ [c]) s (st, acc @ [c] @ decode False s)" by auto
      with 3 False show ?thesis by (auto intro: decode_run.step decode_step.plain)
    qed
  qed
qed

section \<open>Properties of parse_value\<close>

text \<open>C3: Refinement: for a terminated value shorter than a line, \<open>parse_value\<close>
  leaves \<open>parse_value_spec\<close> of it in the output buffer, and neither buffer
  changes size.\<close>

theorem parse_value_refines:
  "terminated b p \<Longrightarrow> length out = LINE_SIZE \<Longrightarrow> strlen b p < LINE_SIZE \<Longrightarrow>
     (case parse_value b p out of (b', out') \<Rightarrow>
        cstr out' 0 = parse_value_spec (cstr b p) \<and> length out' = LINE_SIZE \<and> length b' = length b)"
proof (cases "parse_value b p out")
  case (Pair b' out')
  assume "terminated b p" "length out = LINE_SIZE" "strlen b p < LINE_SIZE"
  from parse_value_cstr [OF this Pair] Pair show ?thesis by simp
qed

theorem parse_value_refines_witness:
  "terminated (''  '' @ [DQUOTE] @ ''x #y'' @ [DQUOTE, NUL]) 0 \<and>
   length (replicate LINE_SIZE NUL) = LINE_SIZE \<and>
   strlen (''  '' @ [DQUOTE] @ ''x #y'' @ [DQUOTE, NUL]) 0 < LINE_SIZE \<and>
   cstr (snd (parse_value (''  '' @ [DQUOTE] @ ''x #y'' @ [DQUOTE, NUL]) 0 (replicate LINE_SIZE NUL))) 0
     = ''x #y''"
proof -
  let ?b = "''  '' @ [DQUOTE] @ ''x #y'' @ [DQUOTE, NUL]"
  have t: "terminated ?b 0" by (simp add: terminated_def)
  have l: "length (replicate LINE_SIZE NUL) = LINE_SIZE" by simp
  have s: "strlen ?b 0 < LINE_SIZE" by (simp add: strlen_def cstr_def LINE_SIZE_def)
  have v: "parse_value_spec (cstr ?b 0) = ''x #y''"
    by (simp add: parse_value_spec_def trim_spec_def ltrim_def rtrim_def isspace_def cstr_def
        unescape_def)
  from parse_value_refines [OF t l s] t l s v show ?thesis by (simp split: prod.splits)
qed

text \<open>C14: Round trip (spec 8): a value quoted with \<open>escape_char\<close> decodes back to
  itself, whatever bytes it holds (newlines, tabs, quotes, backslashes).\<close>

theorem parse_value_roundtrip:
  assumes "NUL \<notin> set v" and "length (quote_value v) < LINE_SIZE" and "length out = LINE_SIZE"
  shows "cstr (snd (parse_value (quote_value v @ NUL # rest) 0 out)) 0 = v"
proof -
  let ?b = "quote_value v @ NUL # rest"
  have nn: "NUL \<notin> set (quote_value v)" using assms(1) by (rule NUL_notin_escape)
  then have c: "cstr ?b 0 = quote_value v" by (rule cstr_append_NUL)
  have t: "terminated ?b 0" by (simp add: terminated_def)
  have s: "strlen ?b 0 < LINE_SIZE" using assms(2) c by (simp add: strlen_def)
  obtain b' out' where r: "parse_value ?b 0 out = (b', out')" by (cases "parse_value ?b 0 out")
  from parse_value_cstr(1) [OF t assms(3) s r] c r show ?thesis
    by (simp add: parse_value_spec_quote)
qed

theorem parse_value_roundtrip_witness:
  "NUL \<notin> set ([DQUOTE] @ ''a\<newline>b'' @ [TAB, BACKSLASH]) \<and>
   length (quote_value ([DQUOTE] @ ''a\<newline>b'' @ [TAB, BACKSLASH])) < LINE_SIZE \<and>
   length (replicate LINE_SIZE NUL) = LINE_SIZE \<and>
   cstr (snd (parse_value (quote_value ([DQUOTE] @ ''a\<newline>b'' @ [TAB, BACKSLASH]) @ [NUL]) 0
     (replicate LINE_SIZE NUL))) 0 = [DQUOTE] @ ''a\<newline>b'' @ [TAB, BACKSLASH]"
proof -
  let ?v = "[DQUOTE] @ ''a\<newline>b'' @ [TAB, BACKSLASH]"
  have h1: "NUL \<notin> set ?v" by simp
  have h2: "length (quote_value ?v) < LINE_SIZE"
    by (simp add: quote_value_def escape_char_def LINE_SIZE_def)
  have h3: "length (replicate LINE_SIZE NUL) = LINE_SIZE" by simp
  from parse_value_roundtrip [OF h1 h2 h3, of "[]"] h1 h2 h3 show ?thesis by simp
qed

text \<open>C17: Quoted values (spec 4.2): the text between the quotes is taken as it is,
  a \<open>#\<close> included, and whatever follows the closing quote is ignored.\<close>

theorem parse_value_quoted_verbatim:
  assumes "terminated b p" and "length out = LINE_SIZE" and "strlen b p < LINE_SIZE"
    and "trim_spec (cstr b p) = DQUOTE # s @ DQUOTE # r"
    and "BACKSLASH \<notin> set s" and "DQUOTE \<notin> set s"
  shows "cstr (snd (parse_value b p out)) 0 = s"
proof -
  obtain b' out' where pv: "parse_value b p out = (b', out')" by (cases "parse_value b p out")
  have "decode False (s @ DQUOTE # r) = s"
    using assms(5,6) by (induction s) auto
  with parse_value_cstr(1) [OF assms(1-3) pv] assms(4) pv show ?thesis
    by (simp add: parse_value_spec_def)
qed

theorem parse_value_quoted_verbatim_witness:
  "terminated ([DQUOTE] @ ''a#b'' @ [DQUOTE] @ '' # c'' @ [NUL]) 0 \<and>
   length (replicate LINE_SIZE NUL) = LINE_SIZE \<and>
   strlen ([DQUOTE] @ ''a#b'' @ [DQUOTE] @ '' # c'' @ [NUL]) 0 < LINE_SIZE \<and>
   trim_spec (cstr ([DQUOTE] @ ''a#b'' @ [DQUOTE] @ '' # c'' @ [NUL]) 0) = DQUOTE # ''a#b'' @ DQUOTE # '' # c'' \<and>
   BACKSLASH \<notin> set ''a#b'' \<and> DQUOTE \<notin> set ''a#b'' \<and>
   cstr (snd (parse_value ([DQUOTE] @ ''a#b'' @ [DQUOTE] @ '' # c'' @ [NUL]) 0 (replicate LINE_SIZE NUL))) 0
     = ''a#b''"
proof -
  let ?b = "[DQUOTE] @ ''a#b'' @ [DQUOTE] @ '' # c'' @ [NUL]"
  have h1: "terminated ?b 0" by (simp add: terminated_def)
  have h2: "length (replicate LINE_SIZE NUL) = LINE_SIZE" by simp
  have h3: "strlen ?b 0 < LINE_SIZE" by (simp add: strlen_def cstr_def LINE_SIZE_def)
  have h4: "trim_spec (cstr ?b 0) = DQUOTE # ''a#b'' @ DQUOTE # '' # c''"
    by (simp add: trim_spec_def ltrim_def rtrim_def isspace_def cstr_def)
  have h5: "BACKSLASH \<notin> set ''a#b''" and h6: "DQUOTE \<notin> set ''a#b''" by simp_all
  from parse_value_quoted_verbatim [OF h1 h2 h3 h4 h5 h6] h1 h2 h3 h4 show ?thesis by simp
qed

text \<open>C18: Unquoted values (spec 4.2 and 8): the value is cut at the first \<open>#\<close> and
  trimmed again, so an inline comment and the blanks before it are dropped.\<close>

theorem parse_value_unquoted_comment:
  assumes "terminated b p" and "length out = LINE_SIZE" and "strlen b p < LINE_SIZE"
    and "hd (trim_spec (cstr b p)) \<noteq> DQUOTE"
  shows "cstr (snd (parse_value b p out)) 0 =
           trim_spec (takeWhile (\<lambda>c. c \<noteq> CHR ''#'') (trim_spec (cstr b p)))"
proof -
  obtain b' out' where pv: "parse_value b p out = (b', out')" by (cases "parse_value b p out")
  let ?u = "trim_spec (takeWhile (\<lambda>c. c \<noteq> CHR ''#'') (trim_spec (cstr b p)))"
  have "length ?u \<le> length (cstr b p)"
    using length_trim_spec_le [of "takeWhile (\<lambda>c. c \<noteq> CHR ''#'') (trim_spec (cstr b p))"]
      length_takeWhile_le [of "\<lambda>c. c \<noteq> CHR ''#''" "trim_spec (cstr b p)"]
      length_trim_spec_le [of "cstr b p"] by linarith
  then have "take (LINE_SIZE - 1) ?u = ?u" using assms(3) by (simp add: strlen_def)
  with parse_value_cstr(1) [OF assms(1-3) pv] assms(4) pv show ?thesis
    by (auto simp: parse_value_spec_def Let_def)
qed

theorem parse_value_unquoted_comment_witness:
  "terminated (''123456 # note'' @ [NUL]) 0 \<and> length (replicate LINE_SIZE NUL) = LINE_SIZE \<and>
   strlen (''123456 # note'' @ [NUL]) 0 < LINE_SIZE \<and>
   hd (trim_spec (cstr (''123456 # note'' @ [NUL]) 0)) \<noteq> DQUOTE \<and>
   cstr (snd (parse_value (''123456 # note'' @ [NUL]) 0 (replicate LINE_SIZE NUL))) 0 = ''123456''"
proof -
  let ?b = "''123456 # note'' @ [NUL]"
  have h1: "terminated ?b 0" by (simp add: terminated_def)
  have h2: "length (replicate LINE_SIZE NUL) = LINE_SIZE" by simp
  have h3: "strlen ?b 0 < LINE_SIZE" by (simp add: strlen_def cstr_def LINE_SIZE_def)
  have c: "trim_spec (cstr ?b 0) = ''123456 # note''"
    by (simp add: trim_spec_def ltrim_def rtrim_def isspace_def cstr_def)
  have h4: "hd (trim_spec (cstr ?b 0)) \<noteq> DQUOTE" unfolding c by simp
  have u: "trim_spec (takeWhile (\<lambda>c. c \<noteq> CHR ''#'') ''123456 # note'') = ''123456''"
    by (simp add: trim_spec_def ltrim_def rtrim_def isspace_def)
  from parse_value_unquoted_comment [OF h1 h2 h3 h4] h1 h2 h3 h4 c u show ?thesis by simp
qed

text \<open>C13: The decoding loop implements the state machine of the spec (4.5): the
  bytes it writes are the output of a run of \<open>decode_run\<close> over the value, and
  every run of the machine produces exactly those bytes.\<close>

theorem decode_quoted_machine:
  assumes "terminated v i" and "strlen v i < length out"
  shows "(case decode_quoted v i out 0 False of (out', w) \<Rightarrow>
            (\<exists>st. decode_run (Quoted, []) (cstr v i) (st, take w out')) \<and>
            (\<forall>st r. decode_run (Quoted, []) (cstr v i) (st, r) \<longrightarrow> r = take w out'))"
proof -
  let ?d = "decode False (cstr v i)"
  have "length ?d \<le> strlen v i" unfolding strlen_def by (rule length_decode)
  then have eq: "decode_quoted v i out 0 False = (memwrite out 0 ?d, length ?d)"
    using decode_quoted_eq [OF assms(1), of 0 False out] assms(2) by simp
  have tk: "take (length ?d) (memwrite out 0 ?d) = ?d" by (simp add: memwrite_def)
  have ex: "\<exists>st. decode_run (Quoted, []) (cstr v i) (st, ?d)"
    using decode_run_exists [of False "[]" "cstr v i"] by simp
  have al: "\<forall>st r. decode_run (Quoted, []) (cstr v i) (st, r) \<longrightarrow> r = ?d"
    using decode_run_decode [of False "[]" "cstr v i"] by simp
  show ?thesis unfolding eq prod.case tk using ex al by blast
qed

theorem decode_quoted_machine_witness:
  "terminated ([CHR ''a'', BACKSLASH, CHR ''n'', DQUOTE, CHR ''z'', NUL]) 0 \<and>
   strlen ([CHR ''a'', BACKSLASH, CHR ''n'', DQUOTE, CHR ''z'', NUL]) 0 < length (replicate 8 NUL) \<and>
   (case decode_quoted ([CHR ''a'', BACKSLASH, CHR ''n'', DQUOTE, CHR ''z'', NUL]) 0 (replicate 8 NUL) 0 False of
      (out', w) \<Rightarrow> (\<exists>st. decode_run (Quoted, []) (cstr ([CHR ''a'', BACKSLASH, CHR ''n'', DQUOTE, CHR ''z'', NUL]) 0) (st, take w out')) \<and>
        (\<forall>st r. decode_run (Quoted, []) (cstr ([CHR ''a'', BACKSLASH, CHR ''n'', DQUOTE, CHR ''z'', NUL]) 0) (st, r) \<longrightarrow> r = take w out'))"
proof -
  let ?v = "[CHR ''a'', BACKSLASH, CHR ''n'', DQUOTE, CHR ''z'', NUL]"
  have h1: "terminated ?v 0" by (simp add: terminated_def)
  have h2: "strlen ?v 0 < length (replicate 8 NUL)" by (simp add: strlen_def cstr_def)
  from decode_quoted_machine [OF h1 h2] h1 h2 show ?thesis by simp
qed

text \<open>C19: Bounds: the write pointer of the decoding loop ends inside the output
  buffer, so the terminating \<open>*write = '\\0'\<close> is in bounds, whenever the value is
  shorter than the buffer (in the loader: a line of at most \<open>LINE_SIZE - 1\<close> bytes
  and an output buffer of \<open>LINE_SIZE\<close>).\<close>

theorem decode_quoted_bound:
  assumes "terminated v i" and "strlen v i < length out"
  shows "(case decode_quoted v i out 0 esc of (out', w) \<Rightarrow>
            w \<le> strlen v i \<and> w < length out' \<and> length out' = length out)"
proof -
  let ?d = "decode esc (cstr v i)"
  have l: "length ?d \<le> strlen v i" unfolding strlen_def by (rule length_decode)
  then have "decode_quoted v i out 0 esc = (memwrite out 0 ?d, length ?d)"
    using decode_quoted_eq [OF assms(1), of 0 esc out] assms(2) by simp
  with l assms(2) show ?thesis by (simp add: length_memwrite)
qed

theorem decode_quoted_bound_witness:
  "terminated (replicate 1022 (CHR ''x'') @ [NUL]) 0 \<and>
   strlen (replicate 1022 (CHR ''x'') @ [NUL]) 0 < length (replicate LINE_SIZE NUL) \<and>
   (case decode_quoted (replicate 1022 (CHR ''x'') @ [NUL]) 0 (replicate LINE_SIZE NUL) 0 False of
      (out', w) \<Rightarrow> w \<le> strlen (replicate 1022 (CHR ''x'') @ [NUL]) 0 \<and> w < length out' \<and>
        length out' = length (replicate LINE_SIZE NUL))"
proof -
  let ?v = "replicate 1022 (CHR ''x'') @ [NUL]"
  have h1: "terminated ?v 0" by (simp add: terminated_def)
  have c: "cstr ?v 0 = replicate 1022 (CHR ''x'')" by (rule cstr_append_NUL) simp
  have h2: "strlen ?v 0 < length (replicate LINE_SIZE NUL)" by (simp add: strlen_def c LINE_SIZE_def)
  from decode_quoted_bound [OF h1 h2, of False] h1 h2 show ?thesis by simp
qed

end
