(* ===== verification/Name.thy ===== *)
theory Name
  imports Prelude
begin

text \<open>
  \<^verbatim>\<open>is_valid_variable_name\<close> of \<^verbatim>\<open>src/dotenv.c\<close>. It reads the name only,
  so it takes the C string (\<open>cstr\<close> of the buffer) rather than the buffer. The
  first byte it tests is \<open>*name\<close>, which for the empty name is the terminator.
  Besides its boolean result it may print one diagnostic, so it returns the
  messages written to standard error as well. \<open>valid_name\<close> is the identifier
  grammar of the spec (4.3).
\<close>

section \<open>The C function\<close>

text \<open>\<^verbatim>\<open>for (p = name + 1; *p; p++) if (!isalnum(*p) && *p != '_') return false;\<close>\<close>

fun name_tail_ok :: "string \<Rightarrow> bool" where
  "name_tail_ok [] = True"
| "name_tail_ok (c # cs) = (if \<not> isalnum c \<and> c \<noteq> CHR ''_'' then False else name_tail_ok cs)"

definition is_valid_variable_name :: "string \<Rightarrow> bool \<times> diag list" where
  "is_valid_variable_name name =
     (let c0 = (if name = [] then NUL else hd name) in
      if \<not> isalpha c0 \<and> c0 \<noteq> CHR ''_'' then (False, [])
      else if \<not> name_tail_ok (tl name) then (False, [])
      else if length name > MAX_VAR_NAME then (False, [Name_too_long])
      else (True, []))"

section \<open>What it promises\<close>

definition valid_name :: "string \<Rightarrow> bool" where
  "valid_name n \<longleftrightarrow>
     n \<noteq> [] \<and> (isalpha (hd n) \<or> hd n = CHR ''_'') \<and>
     (\<forall>c\<in>set (tl n). isalnum c \<or> c = CHR ''_'') \<and> length n \<le> MAX_VAR_NAME"

definition name_chars_ok :: "string \<Rightarrow> bool" where
  "name_chars_ok n \<longleftrightarrow>
     n \<noteq> [] \<and> (isalpha (hd n) \<or> hd n = CHR ''_'') \<and> (\<forall>c\<in>set (tl n). isalnum c \<or> c = CHR ''_'')"

section \<open>Lemmas\<close>

lemma name_tail_ok_iff: "name_tail_ok cs \<longleftrightarrow> (\<forall>c\<in>set cs. isalnum c \<or> c = CHR ''_'')"
  by (induction cs) auto

lemma isalpha_NUL: "\<not> isalpha NUL"
  by (simp add: isalpha_def)

lemma is_valid_variable_name_eq:
  "is_valid_variable_name n =
     (if \<not> name_chars_ok n then (False, [])
      else if length n > MAX_VAR_NAME then (False, [Name_too_long]) else (True, []))"
  by (cases n) (auto simp: is_valid_variable_name_def name_chars_ok_def name_tail_ok_iff isalpha_NUL)

lemma valid_name_iff: "valid_name n \<longleftrightarrow> name_chars_ok n \<and> length n \<le> MAX_VAR_NAME"
  by (auto simp: valid_name_def name_chars_ok_def)

lemma fst_is_valid_variable_name: "fst (is_valid_variable_name n) \<longleftrightarrow> valid_name n"
  by (simp add: is_valid_variable_name_eq valid_name_iff not_less)

lemma name_chars_ok_set:
  "name_chars_ok n \<Longrightarrow> c \<in> set n \<Longrightarrow> c = CHR ''_'' \<or> isalnum c"
  by (cases n) (auto simp: name_chars_ok_def isalpha_isalnum)

lemma name_chars_ok_no_space: "name_chars_ok n \<Longrightarrow> c \<in> set n \<Longrightarrow> \<not> isspace c"
  using name_chars_ok_set isalnum_not_space by (fastforce simp: isspace_def)

lemma name_chars_ok_no_eq: "name_chars_ok n \<Longrightarrow> CHR ''='' \<notin> set n"
  using name_chars_ok_set isalnum_not_eq by fastforce

lemma name_chars_ok_no_NUL: "name_chars_ok n \<Longrightarrow> NUL \<notin> set n"
  using name_chars_ok_set isalnum_not_NUL by fastforce

lemma name_chars_ok_no_hash: "name_chars_ok n \<Longrightarrow> CHR ''#'' \<notin> set n"
  using name_chars_ok_set by (fastforce simp: ctype_defs Let_def)

section \<open>Properties of is_valid_variable_name\<close>

text \<open>C5: The validator accepts exactly the identifiers of the spec (4.3): a letter
  or underscore, then letters, digits and underscores, at most
  \<open>MAX_VAR_NAME\<close> = 256 bytes.\<close>

theorem is_valid_variable_name_correct:
  "fst (is_valid_variable_name n) \<longleftrightarrow>
     n \<noteq> [] \<and> (isalpha (hd n) \<or> hd n = CHR ''_'') \<and>
     (\<forall>c\<in>set (tl n). isalnum c \<or> c = CHR ''_'') \<and> length n \<le> MAX_VAR_NAME"
  using fst_is_valid_variable_name [of n] by (simp add: valid_name_def)

theorem is_valid_variable_name_correct_witness:
  "fst (is_valid_variable_name ''_DB2'') \<and> \<not> fst (is_valid_variable_name ''1INVALID'') \<and>
   \<not> fst (is_valid_variable_name ''INVALID-NAME'')"
proof -
  have "fst (is_valid_variable_name ''_DB2'')"
    using is_valid_variable_name_correct [of "''_DB2''"] by (simp add: ctype_defs MAX_VAR_NAME_def)
  moreover have "\<not> fst (is_valid_variable_name ''1INVALID'')"
    using is_valid_variable_name_correct [of "''1INVALID''"] by (simp add: ctype_defs)
  moreover have "\<not> fst (is_valid_variable_name ''INVALID-NAME'')"
    using is_valid_variable_name_correct [of "''INVALID-NAME''"] by (simp add: ctype_defs)
  ultimately show ?thesis by simp
qed

text \<open>C21: The diagnostic: "Variable name exceeds maximum allowed length" is printed
  exactly when the name is well formed but longer than 256 bytes; a long name
  with a bad byte is rejected silently. The function reports no failure kind
  to its caller, only this message.\<close>

theorem is_valid_variable_name_diag:
  "snd (is_valid_variable_name n) =
     (if name_chars_ok n \<and> MAX_VAR_NAME < length n then [Name_too_long] else [])"
  by (simp add: is_valid_variable_name_eq)

text \<open>C20: A name the validator accepts holds no \<open>=\<close>, no NUL, no white space and
  no \<open>#\<close>, and is not empty, so \<^verbatim>\<open>setenv\<close> never rejects it.\<close>

theorem valid_name_setenv_ok:
  assumes "fst (is_valid_variable_name n)"
  shows "fst (setenv e n v ovr) = 0 \<and> NUL \<notin> set n \<and> (\<forall>c\<in>set n. \<not> isspace c) \<and>
         CHR ''#'' \<notin> set n"
proof -
  have ok: "name_chars_ok n" and ne: "n \<noteq> []"
    using assms by (simp_all add: fst_is_valid_variable_name valid_name_iff name_chars_ok_def)
  then show ?thesis
    using name_chars_ok_no_eq [OF ok] name_chars_ok_no_NUL [OF ok] name_chars_ok_no_space [OF ok]
      name_chars_ok_no_hash [OF ok]
    by (simp add: setenv_def)
qed

theorem valid_name_setenv_ok_witness:
  "fst (is_valid_variable_name ''API_KEY'') \<and>
   fst (setenv Map.empty ''API_KEY'' ''1'' True) = 0 \<and> NUL \<notin> set ''API_KEY'' \<and>
   CHR ''#'' \<notin> set ''API_KEY''"
proof -
  have h: "fst (is_valid_variable_name ''API_KEY'')"
    by (simp add: is_valid_variable_name_def ctype_defs MAX_VAR_NAME_def)
  from valid_name_setenv_ok [OF h, of Map.empty "''1''" True] h show ?thesis by simp
qed

end
