(* ===== verification/Line.thy ===== *)
theory Line
  imports Value Name
begin

text \<open>
  \<^verbatim>\<open>dotenv_entry\<close> of \<^verbatim>\<open>src/dotenv.h\<close> and \<^verbatim>\<open>parse_line\<close> of
  \<^verbatim>\<open>src/dotenv.c\<close>. \<^verbatim>\<open>parse_line\<close> cuts the line at the first \<open>=\<close> by
  writing a NUL there, trims the name in place, validates it, copies it into
  the entry and lets \<^verbatim>\<open>parse_value\<close> decode the rest of the same buffer into
  the entry's value. The model returns the C result (0 or -1), the line buffer
  (its contents are printed by the caller when the line is rejected), the
  entry and the diagnostics. \<open>parse_line_spec\<close> is the string-level splitter
  of the spec (4.4).
\<close>

section \<open>The C code\<close>

text \<open>The field \<^verbatim>\<open>value\<close> is \<open>val\<close>: \<^verbatim>\<open>value\<close> is a keyword of Isabelle.\<close>

record dotenv_entry =
  name :: cbuf
  val :: cbuf

definition parse_line :: "cbuf \<Rightarrow> nat \<Rightarrow> dotenv_entry \<Rightarrow> int \<times> cbuf \<times> dotenv_entry \<times> diag list" where
  "parse_line line l entry =
     (case strchr line l CHR ''='' of
        None \<Rightarrow> (-1, line, entry, [])
      | Some d \<Rightarrow>
          (case trim_whitespace (line[d := NUL]) l of (b1, n) \<Rightarrow>
           (case is_valid_variable_name (cstr b1 n) of (ok, ds) \<Rightarrow>
              if \<not> ok then (-1, b1, entry, ds)
              else
                (let e1 = entry\<lparr>name := strncpy (name entry) b1 n LINE_SIZE\<rparr> in
                 case parse_value b1 (Suc d) (val e1) of (b2, v) \<Rightarrow>
                   (0, b2, e1\<lparr>val := v\<rparr>, ds)))))"

section \<open>What it promises\<close>

definition parse_line_spec :: "string \<Rightarrow> (string \<times> string) option" where
  "parse_line_spec l =
     (if CHR ''='' \<notin> set l then None
      else let n = trim_spec (takeWhile (\<lambda>c. c \<noteq> CHR ''='') l);
               v = parse_value_spec (tl (dropWhile (\<lambda>c. c \<noteq> CHR ''='') l))
           in if valid_name n then Some (n, v) else None)"

text \<open>The text the caller prints for a rejected line: the line up to the first
  \<open>=\<close>, trimmed, because \<^verbatim>\<open>parse_line\<close> has cut the buffer there.\<close>

definition rejected_text :: "string \<Rightarrow> string" where
  "rejected_text l =
     (if CHR ''='' \<in> set l then trim_spec (takeWhile (\<lambda>c. c \<noteq> CHR ''='') l) else l)"

definition entry_ok :: "dotenv_entry \<Rightarrow> bool" where
  "entry_ok e \<longleftrightarrow> length (name e) = LINE_SIZE \<and> length (val e) = LINE_SIZE"

section \<open>Lemmas\<close>

lemma parse_line_cut:
  assumes t: "terminated line l" and d: "strchr line l CHR ''='' = Some d"
  defines "np \<equiv> takeWhile (\<lambda>c. c \<noteq> CHR ''='') (cstr line l)"
  shows "cstr (line[d := NUL]) l = np" and "terminated (line[d := NUL]) l"
    and "length (line[d := NUL]) = length line" and "d = l + length np"
    and "CHR ''='' \<in> set (cstr line l)"
    and "cstr (line[d := NUL]) (Suc d) = tl (dropWhile (\<lambda>c. c \<noteq> CHR ''='') (cstr line l))"
    and "terminated (line[d := NUL]) (Suc d)"
    and "strlen (line[d := NUL]) (Suc d) < strlen line l"
proof -
  let ?s = "cstr line l"
  have ne: "CHR ''='' \<noteq> NUL" by simp
  from strchr_cut [OF t ne] d
  show "cstr (line[d := NUL]) l = np" and "terminated (line[d := NUL]) l"
    and "length (line[d := NUL]) = length line" by (simp_all add: np_def)
  note dd = strchr_Some_nth [OF t ne d]
  show "d = l + length np" using dd(1) by (simp add: np_def)
  show "CHR ''='' \<in> set ?s" using strchr_cstr [OF t ne] d by (simp split: if_splits)
  have kl: "Suc (length np) \<le> strlen line l" using dd(1,2) by (simp add: np_def)
  have "cstr (line[d := NUL]) (Suc d) = cstr line (l + Suc (length np))"
    using dd(1) by (simp add: cstr_update_before np_def)
  also have "\<dots> = drop (Suc (length np)) ?s" using kl by (rule cstr_add)
  also have "\<dots> = tl (dropWhile (\<lambda>c. c \<noteq> CHR ''='') ?s)"
    by (simp add: np_def dropWhile_eq_drop drop_Suc tl_drop)
  finally show "cstr (line[d := NUL]) (Suc d) = tl (dropWhile (\<lambda>c. c \<noteq> CHR ''='') ?s)" .
  have "l \<le> Suc d" and "Suc d \<le> l + strlen line l" using dd(1,2) by linarith+
  with t have "terminated line (Suc d)" by (rule terminated_within)
  then show "terminated (line[d := NUL]) (Suc d)" by (rule terminated_update_before) simp
  show "strlen (line[d := NUL]) (Suc d) < strlen line l"
    using \<open>cstr (line[d := NUL]) (Suc d) = cstr line (l + Suc (length np))\<close> cstr_add [OF kl] kl
    by (simp add: strlen_def)
qed

lemma hd_takeWhile_nonspace:
  "xs = [] \<or> \<not> isspace (hd xs) \<Longrightarrow> takeWhile isspace (takeWhile P xs) = []"
  by (cases xs) auto

lemma parse_line_facts:
  assumes t: "terminated line l" and sl: "strlen line l < LINE_SIZE" and eo: "entry_ok e"
    and r: "parse_line line l e = (res, line', e', ds)"
  defines "s \<equiv> cstr line l"
  shows "length line' = length line \<and> entry_ok e' \<and>
    ((res = 0 \<and> parse_line_spec s = Some (cstr (name e') 0, cstr (val e') 0)) \<or>
     (res = -1 \<and> parse_line_spec s = None \<and> e' = e)) \<and>
    ds = (if CHR ''='' \<in> set s
          then snd (is_valid_variable_name (trim_spec (takeWhile (\<lambda>c. c \<noteq> CHR ''='') s))) else []) \<and>
    (res \<noteq> 0 \<longrightarrow> (s = [] \<or> \<not> isspace (hd s)) \<longrightarrow> cstr line' l = rejected_text s)"
proof (cases "strchr line l CHR ''=''")
  case None
  have "CHR ''='' \<notin> set s"
    using strchr_cstr [OF t, of "CHR ''=''"] None by (simp add: s_def split: if_splits)
  moreover have "res = -1" "line' = line" "e' = e" "ds = []"
    using r None by (simp_all add: parse_line_def)
  ultimately show ?thesis
    using eo by (simp add: parse_line_spec_def rejected_text_def s_def)
next
  case (Some d)
  let ?np = "takeWhile (\<lambda>c. c \<noteq> CHR ''='') s"
  let ?line1 = "line[d := NUL]"
  note cut = parse_line_cut [OF t Some, folded s_def]
  obtain b1 n where tw: "trim_whitespace ?line1 l = (b1, n)" by (cases "trim_whitespace ?line1 l")
  note tf = trim_whitespace_facts [OF cut(2) tw]
  have len1: "strlen ?line1 l = length ?np" using cut(1) by (simp add: strlen_def)
  have after: "l + strlen ?line1 l < Suc d" using cut(4) len1 by simp
  have crest: "cstr b1 (Suc d) = tl (dropWhile (\<lambda>c. c \<noteq> CHR ''='') s)"
    using trim_whitespace_frame(1) [OF cut(2) tw after] cut(6) by simp
  have trest: "terminated b1 (Suc d)"
    using trim_whitespace_frame(2) [OF cut(2) tw after cut(7)] .
  have slrest: "strlen b1 (Suc d) < LINE_SIZE"
    using trim_whitespace_frame(1) [OF cut(2) tw after] cut(8) sl by (simp add: strlen_def s_def)
  have nm: "cstr b1 n = trim_spec ?np" using tf(1) cut(1) by simp
  have spec: "parse_line_spec s =
      (if valid_name (trim_spec ?np)
       then Some (trim_spec ?np, parse_value_spec (tl (dropWhile (\<lambda>c. c \<noteq> CHR ''='') s))) else None)"
    using cut(5) by (simp add: parse_line_spec_def Let_def)
  show ?thesis
  proof (cases "fst (is_valid_variable_name (trim_spec ?np))")
    case True
    then have vn: "valid_name (trim_spec ?np)" by (simp add: fst_is_valid_variable_name)
    let ?e1 = "e\<lparr>name := strncpy (name e) b1 n LINE_SIZE\<rparr>"
    obtain b2 v where pv: "parse_value b1 (Suc d) (val e) = (b2, v)"
      by (cases "parse_value b1 (Suc d) (val e)")
    have lv: "length (val e) = LINE_SIZE" using eo by (simp add: entry_ok_def)
    note pf = parse_value_cstr [OF trest lv slrest pv]
    have "strlen b1 n < LINE_SIZE"
      using vn nm by (simp add: valid_name_def strlen_def MAX_VAR_NAME_def LINE_SIZE_def)
    then have cn: "cstr (strncpy (name e) b1 n LINE_SIZE) 0 = trim_spec ?np"
      using eo nm by (simp add: cstr_strncpy_short entry_ok_def)
    have ln: "length (strncpy (name e) b1 n LINE_SIZE) = LINE_SIZE"
      using eo by (simp add: length_strncpy entry_ok_def)
    have "res = 0" "line' = b2" "e' = ?e1\<lparr>val := v\<rparr>"
      "ds = snd (is_valid_variable_name (trim_spec ?np))"
      using r Some tw nm True pv by (auto simp: parse_line_def split: prod.splits)
    then show ?thesis
      using pf crest cn ln tf(3) vn spec cut(3,5) by (simp add: entry_ok_def)
  next
    case False
    then have vn: "\<not> valid_name (trim_spec ?np)" by (simp add: fst_is_valid_variable_name)
    have "res = -1" "line' = b1" "e' = e" "ds = snd (is_valid_variable_name (trim_spec ?np))"
      using r Some tw nm False by (auto simp: parse_line_def split: prod.splits)
    moreover have "s = [] \<or> \<not> isspace (hd s) \<Longrightarrow> cstr b1 l = rejected_text s"
    proof -
      assume h: "s = [] \<or> \<not> isspace (hd s)"
      have "trim_whitespace ?line1 l = (if trim_spec ?np = [] then (?line1, l)
            else (?line1[l + length (trim_spec ?np) := NUL], l))"
        using trim_whitespace_eq [OF cut(2)] cut(1) hd_takeWhile_nonspace [OF h] by simp
      then have "n = l" using tw by (simp split: if_splits)
      with nm cut(5) show ?thesis by (simp add: rejected_text_def)
    qed
    ultimately show ?thesis
      using eo tf(3) vn spec cut(3,5) by simp
  qed
qed

lemma hd_cstr: "cstr b p \<noteq> [] \<Longrightarrow> hd (cstr b p) = b ! p"
  using cstr_nth [of 0 b p] by (simp add: hd_conv_nth)

lemma parse_line_spec_Some: "parse_line_spec s = Some (n, v) \<Longrightarrow> valid_name n"
  by (simp add: parse_line_spec_def Let_def split: if_splits)

lemma parse_line_spec_eqs:
  "parse_line_spec ''A=1'' = Some (''A'', ''1'')"
  "parse_line_spec ''1BAD=x'' = None"
  by (simp_all add: parse_line_spec_def valid_name_def ctype_defs trim_spec_def ltrim_def rtrim_def
      parse_value_spec_def MAX_VAR_NAME_def LINE_SIZE_def)

definition blank_entry :: dotenv_entry where
  "blank_entry = \<lparr>name = replicate LINE_SIZE NUL, val = replicate LINE_SIZE NUL\<rparr>"

lemma blank_entry_ok: "entry_ok blank_entry"
  by (simp add: blank_entry_def entry_ok_def)

section \<open>Properties of parse_line\<close>

text \<open>C2: Refinement: on a terminated line shorter than \<open>LINE_SIZE\<close> and an entry
  with two \<open>LINE_SIZE\<close> arrays, \<^verbatim>\<open>parse_line\<close> returns 0 exactly when the
  string-level splitter accepts the line, and then the entry holds the
  splitter's name and value as C strings; on -1 the entry is untouched. The
  buffer keeps its length and the entry its shape.\<close>

theorem parse_line_refines:
  assumes "terminated line l" and "strlen line l < LINE_SIZE" and "entry_ok e"
  shows "case parse_line line l e of (res, line', e', ds) \<Rightarrow>
     (case parse_line_spec (cstr line l) of
        None \<Rightarrow> res = -1 \<and> e' = e
      | Some (n, v) \<Rightarrow> res = 0 \<and> cstr (name e') 0 = n \<and> cstr (val e') 0 = v) \<and>
     entry_ok e' \<and> length line' = length line"
proof -
  obtain res line' e' ds where r: "parse_line line l e = (res, line', e', ds)"
    by (cases "parse_line line l e")
  show ?thesis using parse_line_facts [OF assms r] r by auto
qed

theorem parse_line_refines_witness:
  "terminated (''A=1'' @ [NUL]) 0 \<and> strlen (''A=1'' @ [NUL]) 0 < LINE_SIZE \<and> entry_ok blank_entry \<and>
   (case parse_line (''A=1'' @ [NUL]) 0 blank_entry of (res, line', e', ds) \<Rightarrow>
      res = 0 \<and> cstr (name e') 0 = ''A'' \<and> cstr (val e') 0 = ''1'')"
proof -
  have t: "terminated (''A=1'' @ [NUL]) 0" by (simp add: terminated_def)
  have sl: "strlen (''A=1'' @ [NUL]) 0 < LINE_SIZE"
    by (simp add: strlen_def cstr_def LINE_SIZE_def)
  have c: "cstr (''A=1'' @ [NUL]) 0 = ''A=1''" by (simp add: cstr_def)
  obtain res line' e' ds where r: "parse_line (''A=1'' @ [NUL]) 0 blank_entry = (res, line', e', ds)"
    by (cases "parse_line (''A=1'' @ [NUL]) 0 blank_entry")
  have "res = 0 \<and> cstr (name e') 0 = ''A'' \<and> cstr (val e') 0 = ''1''"
    using parse_line_refines [OF t sl blank_entry_ok] unfolding r c parse_line_spec_eqs by simp
  with t sl blank_entry_ok r show ?thesis by simp
qed

text \<open>C11: Entry invariant: when \<^verbatim>\<open>parse_line\<close> succeeds, the name it stored
  is a valid identifier of at most 256 bytes, and it is the trimmed text
  before the first \<open>=\<close> of the line.\<close>

theorem parse_line_entry_valid:
  assumes "terminated line l" and "strlen line l < LINE_SIZE" and "entry_ok e"
    and "parse_line line l e = (0, line', e', ds)"
  shows "valid_name (cstr (name e') 0) \<and>
         cstr (name e') 0 = trim_spec (takeWhile (\<lambda>c. c \<noteq> CHR ''='') (cstr line l))"
proof -
  have "parse_line_spec (cstr line l) = Some (cstr (name e') 0, cstr (val e') 0)"
    using parse_line_facts [OF assms] by simp
  then show ?thesis
    by (auto simp: parse_line_spec_def Let_def split: if_splits)
qed

theorem parse_line_entry_valid_witness:
  "case parse_line (''A=1'' @ [NUL]) 0 blank_entry of (res, line', e', ds) \<Rightarrow>
     res = 0 \<and> valid_name (cstr (name e') 0)"
proof -
  have t: "terminated (''A=1'' @ [NUL]) 0" by (simp add: terminated_def)
  have sl: "strlen (''A=1'' @ [NUL]) 0 < LINE_SIZE"
    by (simp add: strlen_def cstr_def LINE_SIZE_def)
  have c: "cstr (''A=1'' @ [NUL]) 0 = ''A=1''" by (simp add: cstr_def)
  obtain res line' e' ds where r: "parse_line (''A=1'' @ [NUL]) 0 blank_entry = (res, line', e', ds)"
    by (cases "parse_line (''A=1'' @ [NUL]) 0 blank_entry")
  have "res = 0"
    using parse_line_facts [OF t sl blank_entry_ok r] unfolding c parse_line_spec_eqs by simp
  with r have r0: "parse_line (''A=1'' @ [NUL]) 0 blank_entry = (0, line', e', ds)" by simp
  have "valid_name (cstr (name e') 0)"
    using parse_line_entry_valid [OF t sl blank_entry_ok r0] by (rule conjunct1)
  with r0 show ?thesis by simp
qed

text \<open>C23: The diagnostic of a rejected line. The caller prints the line buffer
  after \<^verbatim>\<open>parse_line\<close> has returned -1. If the line had an \<open>=\<close>, the
  buffer has been cut there and the name part trimmed, so what is printed is
  the trimmed name, not the line (the spec, 4.5, says the line is printed).
  The only message \<^verbatim>\<open>parse_line\<close> itself emits is the validator's.\<close>

theorem parse_line_rejected_text:
  assumes "terminated line l" and "strlen line l < LINE_SIZE" and "entry_ok e"
    and "parse_line line l e = (res, line', e', ds)" and "res \<noteq> 0"
    and "\<not> isspace (line ! l)"
  shows "cstr line' l = rejected_text (cstr line l) \<and>
         ds = (if CHR ''='' \<in> set (cstr line l)
               then snd (is_valid_variable_name (trim_spec (takeWhile (\<lambda>c. c \<noteq> CHR ''='') (cstr line l))))
               else [])"
proof -
  have "cstr line l = [] \<or> \<not> isspace (hd (cstr line l))"
    using assms(6) hd_cstr [of line l] by auto
  then show ?thesis using parse_line_facts [OF assms(1-4)] assms(5) by simp
qed

theorem parse_line_rejected_text_witness:
  "case parse_line (''1BAD=x'' @ [NUL]) 0 blank_entry of (res, line', e', ds) \<Rightarrow>
     res = -1 \<and> cstr line' 0 = ''1BAD'' \<and> ds = []"
proof -
  have t: "terminated (''1BAD=x'' @ [NUL]) 0" by (simp add: terminated_def)
  have sl: "strlen (''1BAD=x'' @ [NUL]) 0 < LINE_SIZE"
    by (simp add: strlen_def cstr_def LINE_SIZE_def)
  have c: "cstr (''1BAD=x'' @ [NUL]) 0 = ''1BAD=x''" by (simp add: cstr_def)
  have sp: "\<not> isspace ((''1BAD=x'' @ [NUL]) ! 0)" by (simp add: isspace_def)
  obtain res line' e' ds where r: "parse_line (''1BAD=x'' @ [NUL]) 0 blank_entry = (res, line', e', ds)"
    by (cases "parse_line (''1BAD=x'' @ [NUL]) 0 blank_entry")
  have "res = -1"
    using parse_line_facts [OF t sl blank_entry_ok r] unfolding c parse_line_spec_eqs by simp
  moreover have "cstr line' 0 = ''1BAD'' \<and> ds = []"
    using parse_line_rejected_text [OF t sl blank_entry_ok r _ sp] \<open>res = -1\<close> unfolding c
    by (simp add: rejected_text_def trim_spec_def ltrim_def rtrim_def isspace_def
        is_valid_variable_name_def isalpha_def)
  ultimately show ?thesis using r by simp
qed

text \<open>C30: The entry holds C strings: when \<^verbatim>\<open>parse_line\<close> succeeds, both
  fields of the entry are terminated inside their \<open>LINE_SIZE\<close> arrays, so the
  \<^verbatim>\<open>getenv\<close> and \<^verbatim>\<open>setenv\<close> calls of the caller read no byte past them,
  whatever the arrays held before.\<close>

theorem parse_line_entry_c_strings:
  assumes "terminated line l" and "strlen line l < LINE_SIZE" and "entry_ok e"
    and "parse_line line l e = (0, line', e', ds)"
  shows "terminated (name e') 0 \<and> terminated (val e') 0 \<and> entry_ok e'"
proof -
  let ?s = "cstr line l"
  note pf = parse_line_facts [OF assms]
  have ps: "parse_line_spec ?s = Some (cstr (name e') 0, cstr (val e') 0)" using pf by simp
  then have vn: "valid_name (cstr (name e') 0)" by (rule parse_line_spec_Some)
  have "length (tl (dropWhile (\<lambda>c. c \<noteq> CHR ''='') ?s)) < LINE_SIZE"
  proof -
    have "length (dropWhile (\<lambda>c. c \<noteq> CHR ''='') ?s) \<le> length ?s" by (rule length_dropWhile_le)
    then show ?thesis using assms(2) by (simp add: strlen_def)
  qed
  then have "length (parse_value_spec (tl (dropWhile (\<lambda>c. c \<noteq> CHR ''='') ?s))) < LINE_SIZE"
    by (rule length_parse_value_spec)
  moreover have "parse_value_spec (tl (dropWhile (\<lambda>c. c \<noteq> CHR ''='') ?s)) = cstr (val e') 0"
    using ps by (auto simp: parse_line_spec_def Let_def split: if_splits)
  ultimately have lv: "length (cstr (val e') 0) < LINE_SIZE" by simp
  have ln: "length (cstr (name e') 0) < LINE_SIZE"
    using vn by (simp add: valid_name_def MAX_VAR_NAME_def LINE_SIZE_def)
  have eo: "entry_ok e'" using pf by simp
  then show ?thesis
    using lv ln by (simp add: entry_ok_def terminated_iff_strlen strlen_def)
qed

theorem parse_line_entry_c_strings_witness:
  "case parse_line (''A=1'' @ [NUL]) 0 blank_entry of (res, line', e', ds) \<Rightarrow>
     res = 0 \<and> terminated (name e') 0 \<and> terminated (val e') 0"
proof -
  have t: "terminated (''A=1'' @ [NUL]) 0" by (simp add: terminated_def)
  have sl: "strlen (''A=1'' @ [NUL]) 0 < LINE_SIZE"
    by (simp add: strlen_def cstr_def LINE_SIZE_def)
  have c: "cstr (''A=1'' @ [NUL]) 0 = ''A=1''" by (simp add: cstr_def)
  obtain res line' e' ds where r: "parse_line (''A=1'' @ [NUL]) 0 blank_entry = (res, line', e', ds)"
    by (cases "parse_line (''A=1'' @ [NUL]) 0 blank_entry")
  have "res = 0"
    using parse_line_facts [OF t sl blank_entry_ok r] unfolding c parse_line_spec_eqs by simp
  with r have r0: "parse_line (''A=1'' @ [NUL]) 0 blank_entry = (0, line', e', ds)" by simp
  have "terminated (name e') 0 \<and> terminated (val e') 0"
    using parse_line_entry_c_strings [OF t sl blank_entry_ok r0] by simp
  with r0 show ?thesis by simp
qed

end
