(* ===== verification/Loader.thy ===== *)
theory Loader
  imports Line
begin

text \<open>
  \<^verbatim>\<open>dotenv_load\<close> of \<^verbatim>\<open>src/dotenv.c\<close>. The file system is a map from paths
  to contents; an open file is the rest of its contents, which \<^verbatim>\<open>fgets\<close>
  consumes. The loop's state is the record \<open>loader\<close>: the stack buffer
  \<^verbatim>\<open>line\<close>, the \<^verbatim>\<open>entry\<close>, the process environment and what has been
  written to standard error. \<open>load_line\<close> is one iteration of the
  \<^verbatim>\<open>while\<close> loop, \<open>load_lines\<close> the loop, \<open>dotenv_load\<close> the function.
  The reference semantics works on whole lines: \<open>fgets_lines\<close> cuts the file
  the way \<^verbatim>\<open>fgets\<close> does, \<open>env_step\<close> and \<open>line_diags\<close> say what a line
  does to the environment and to standard error.
\<close>

section \<open>fgets\<close>

text \<open>\<^verbatim>\<open>fgets(line, n, file)\<close> reads up to \<open>n - 1\<close> bytes, stopping after a
  newline, stores them followed by a NUL, and returns NULL when the file is at
  its end before any byte is read. Read errors are not modelled.\<close>

fun fgets_read :: "nat \<Rightarrow> string \<Rightarrow> string \<times> string" where
  "fgets_read 0 s = ([], s)"
| "fgets_read (Suc k) [] = ([], [])"
| "fgets_read (Suc k) (c # s) =
     (if c = LF then ([c], s) else (case fgets_read k s of (r, s') \<Rightarrow> (c # r, s')))"

definition fgets :: "cbuf \<Rightarrow> nat \<Rightarrow> string \<Rightarrow> (cbuf \<times> string) option" where
  "fgets b n s =
     (if s = [] then None
      else case fgets_read (n - 1) s of (r, s') \<Rightarrow> Some (memwrite b 0 (r @ [NUL]), s'))"

text \<open>The number of bytes one call takes from the stream.\<close>

definition fgets_count :: "nat \<Rightarrow> string \<Rightarrow> nat" where
  "fgets_count k s = min k (min (Suc (length (takeWhile (\<lambda>c. c \<noteq> LF) s))) (length s))"

lemma fgets_read_eq: "fgets_read k s = (take (fgets_count k s) s, drop (fgets_count k s) s)"
proof (induction k s rule: fgets_read.induct)
  case (3 k c s)
  then show ?case by (cases "c = LF") (simp_all add: fgets_count_def split: prod.splits)
qed (simp_all add: fgets_count_def)

lemma fgets_count_pos: "0 < k \<Longrightarrow> s \<noteq> [] \<Longrightarrow> 0 < fgets_count k s"
  by (simp add: fgets_count_def)

lemma fgets_count_le: "fgets_count k s \<le> k" "fgets_count k s \<le> length s"
  by (simp_all add: fgets_count_def)

lemma LINE_SIZE_pos: "1 < LINE_SIZE"
  by (simp add: LINE_SIZE_def)

lemma fgets_shorter:
  "fgets b LINE_SIZE s = Some (b', s') \<Longrightarrow> length s' < length s"
  using fgets_count_pos [of "LINE_SIZE - 1" s] LINE_SIZE_pos
  by (auto simp: fgets_def fgets_read_eq split: if_splits)

section \<open>The loader's state and loop\<close>

text \<open>The locals \<^verbatim>\<open>line\<close> and \<^verbatim>\<open>entry\<close> of \<^verbatim>\<open>dotenv_load\<close> are the fields
  \<open>line_buf\<close> and \<open>entry_buf\<close>; before the first iteration they hold whatever
  the stack held.\<close>

record loader =
  line_buf :: cbuf
  entry_buf :: dotenv_entry
  env :: environ
  err :: "diag list"

text \<open>One iteration of the loop body (lines 119--132): trim the line, skip it
  if it is empty or a comment, parse it, then set the variable unless it
  exists and \<open>override\<close> is false, or print the line buffer as rejected. The
  result of \<^verbatim>\<open>setenv\<close> is ignored, as in the code.\<close>

definition load_line :: "bool \<Rightarrow> loader \<Rightarrow> loader" where
  "load_line override st =
     (case trim_whitespace (line_buf st) 0 of (b, t) \<Rightarrow>
        if b ! t = NUL \<or> b ! t = CHR ''#'' then st\<lparr>line_buf := b\<rparr>
        else (case parse_line b t (entry_buf st) of (res, b', e', ds) \<Rightarrow>
          let st1 = st\<lparr>line_buf := b', entry_buf := e', err := err st @ ds\<rparr> in
          if res = 0 then
            (if override \<or> getenv (env st1) (cstr (name e') 0) = None
             then st1\<lparr>env := snd (setenv (env st1) (cstr (name e') 0) (cstr (val e') 0) True)\<rparr>
             else st1)
          else st1\<lparr>err := err st1 @ [Skipping_invalid_line (cstr b' t)]\<rparr>))"

text \<open>The \<^verbatim>\<open>while (fgets(line, LINE_SIZE, file))\<close> loop. Each call that
  returns a line consumes at least one byte, so the loop ends.\<close>

function load_lines :: "bool \<Rightarrow> string \<Rightarrow> loader \<Rightarrow> loader" where
  "load_lines override s st =
     (case fgets (line_buf st) LINE_SIZE s of
        None \<Rightarrow> st
      | Some (b, s') \<Rightarrow> load_lines override s' (load_line override (st\<lparr>line_buf := b\<rparr>)))"
  by pat_completeness auto
termination
  by (relation "measure (\<lambda>(_, s, _). length s)") (auto dest: fgets_shorter)

declare load_lines.simps [simp del]

type_synonym filesystem = "string \<rightharpoonup> string"

definition dotenv_load :: "filesystem \<Rightarrow> string \<Rightarrow> bool \<Rightarrow> loader \<Rightarrow> int \<times> loader" where
  "dotenv_load fs path override st =
     (case fs path of
        None \<Rightarrow> (-1, st\<lparr>err := err st @ [Perror ''Failed to open .env file'']\<rparr>)
      | Some contents \<Rightarrow> (0, load_lines override contents st))"

section \<open>What it promises\<close>

text \<open>The lines the loop sees: the chunks \<^verbatim>\<open>fgets\<close> cuts the file into,
  each up to and including a newline but at most \<open>LINE_SIZE - 1\<close> bytes, read
  as C strings (a NUL byte in the file ends the line early).\<close>

function fgets_lines :: "string \<Rightarrow> string list" where
  "fgets_lines s =
     (if s = [] then []
      else case fgets_read (LINE_SIZE - 1) s of (r, s') \<Rightarrow> r # fgets_lines s')"
  by pat_completeness auto
termination
proof (relation "measure length")
  fix s r s'
  assume "\<not> s = []" and "(r, s') = fgets_read (LINE_SIZE - 1) s"
  then show "(s', s) \<in> measure length"
    using fgets_count_pos [of "LINE_SIZE - 1" s] LINE_SIZE_pos
    by (simp add: fgets_read_eq)
qed simp

declare fgets_lines.simps [simp del]

definition file_lines :: "string \<Rightarrow> string list" where
  "file_lines s = map (takeWhile (\<lambda>c. c \<noteq> NUL)) (fgets_lines s)"

text \<open>What a line means: skipped when blank or a comment after trimming,
  otherwise split by \<open>parse_line_spec\<close>.\<close>

definition accepted :: "string \<Rightarrow> (string \<times> string) option" where
  "accepted l =
     (let t = trim_spec l in if t = [] \<or> hd t = CHR ''#'' then None else parse_line_spec t)"

definition env_step :: "bool \<Rightarrow> string \<Rightarrow> environ \<Rightarrow> environ" where
  "env_step override l e =
     (case accepted l of
        None \<Rightarrow> e
      | Some (n, v) \<Rightarrow> if override \<or> e n = None then e(n \<mapsto> v) else e)"

definition name_diags :: "string \<Rightarrow> diag list" where
  "name_diags t =
     (if CHR ''='' \<in> set t
      then snd (is_valid_variable_name (trim_spec (takeWhile (\<lambda>c. c \<noteq> CHR ''='') t))) else [])"

definition line_diags :: "string \<Rightarrow> diag list" where
  "line_diags l =
     (let t = trim_spec l in
      if t = [] \<or> hd t = CHR ''#'' \<or> parse_line_spec t \<noteq> None then []
      else name_diags t @ [Skipping_invalid_line (rejected_text t)])"

definition wf_loader :: "loader \<Rightarrow> bool" where
  "wf_loader st \<longleftrightarrow> length (line_buf st) = LINE_SIZE \<and> entry_ok (entry_buf st)"

text \<open>The assignments of a file, in order: the accepted lines' (name, value).\<close>

definition assignments :: "string list \<Rightarrow> (string \<times> string) list" where
  "assignments ls = List.map_filter accepted ls"

text \<open>A loader about to run on the environment \<open>e\<close>, its stack zeroed.\<close>

definition initial_loader :: "environ \<Rightarrow> loader" where
  "initial_loader e =
     \<lparr>line_buf = replicate LINE_SIZE NUL, entry_buf = blank_entry, env = e, err = []\<rparr>"

section \<open>Lemmas\<close>

lemma takeWhile_append_stop: "\<not> P y \<Longrightarrow> takeWhile P (xs @ y # ys) = takeWhile P xs"
  by (induction xs) auto

lemma cstr_fgets: "cstr (memwrite b 0 (r @ [NUL])) 0 = takeWhile (\<lambda>c. c \<noteq> NUL) r"
  by (simp add: cstr_def memwrite_def takeWhile_append_stop)

lemma fgets_step:
  assumes "fgets b LINE_SIZE s = Some (b', s')" and "length b = LINE_SIZE"
  shows "length b' = LINE_SIZE" and "terminated b' 0" and "strlen b' 0 < LINE_SIZE"
    and "file_lines s = cstr b' 0 # file_lines s'"
proof -
  let ?m = "fgets_count (LINE_SIZE - 1) s"
  have ne: "s \<noteq> []" and b': "b' = memwrite b 0 (take ?m s @ [NUL])" and s': "s' = drop ?m s"
    using assms(1) by (auto simp: fgets_def fgets_read_eq split: if_splits)
  have m: "?m \<le> LINE_SIZE - 1" by (rule fgets_count_le)
  then have lm: "length (take ?m s) < LINE_SIZE" using LINE_SIZE_pos by simp
  show "length b' = LINE_SIZE"
    using assms(2) lm by (simp add: b' length_memwrite)
  show "terminated b' 0"
    using assms(2) lm by (simp add: b' terminated_def memwrite_def)
  show "strlen b' 0 < LINE_SIZE"
  proof -
    have "length (takeWhile (\<lambda>c. c \<noteq> NUL) (take ?m s)) \<le> length (take ?m s)"
      by (rule length_takeWhile_le)
    then show ?thesis using lm unfolding b' strlen_def cstr_fgets by (rule le_less_trans)
  qed
  show "file_lines s = cstr b' 0 # file_lines s'"
    using ne by (simp add: file_lines_def fgets_lines.simps [of s] fgets_read_eq b' s' cstr_fgets)
qed

lemma fgets_None: "fgets b n s = None \<longleftrightarrow> s = []"
  by (simp add: fgets_def split: prod.splits)

lemma file_lines_Nil: "file_lines [] = []"
  by (simp add: file_lines_def fgets_lines.simps)

lemma cstr_Nil_iff: "terminated b p \<Longrightarrow> cstr b p = [] \<longleftrightarrow> b ! p = NUL"
  using terminated_less [of b p] cstr_unfold [of p b] by auto

lemma valid_name_checks:
  assumes "valid_name n"
  shows "is_valid_variable_name n = (True, [])" and "setenv e n v True = (0, e(n \<mapsto> v))"
proof -
  have ok: "name_chars_ok n" and "\<not> MAX_VAR_NAME < length n"
    using assms by (simp_all add: valid_name_iff)
  then show "is_valid_variable_name n = (True, [])" by (simp add: is_valid_variable_name_eq)
  have "n \<noteq> []" using ok by (simp add: name_chars_ok_def)
  then show "setenv e n v True = (0, e(n \<mapsto> v))"
    using name_chars_ok_no_eq [OF ok] by (simp add: setenv_def)
qed

lemma load_line_step:
  assumes wf: "wf_loader st" and t: "terminated (line_buf st) 0"
    and sl: "strlen (line_buf st) 0 < LINE_SIZE"
  defines "l \<equiv> cstr (line_buf st) 0"
  shows "env (load_line ovr st) = env_step ovr l (env st) \<and>
         err (load_line ovr st) = err st @ line_diags l \<and> wf_loader (load_line ovr st)"
proof -
  obtain b p where tw: "trim_whitespace (line_buf st) 0 = (b, p)"
    by (cases "trim_whitespace (line_buf st) 0")
  note tf = trim_whitespace_facts [OF t tw]
  have ct: "cstr b p = trim_spec l" using tf(1) by (simp add: l_def)
  have lb: "length b = LINE_SIZE" using tf(3) wf by (simp add: wf_loader_def)
  have eo: "entry_ok (entry_buf st)" using wf by (simp add: wf_loader_def)
  have slb: "strlen b p < LINE_SIZE"
    using length_trim_spec_le [of l] sl ct by (simp add: strlen_def l_def)
  have skip: "(b ! p = NUL \<or> b ! p = CHR ''#'') \<longleftrightarrow> (trim_spec l = [] \<or> hd (trim_spec l) = CHR ''#'')"
    using cstr_Nil_iff [OF tf(2)] hd_cstr [of b p] ct by auto
  show ?thesis
  proof (cases "b ! p = NUL \<or> b ! p = CHR ''#''")
    case True
    then have "trim_spec l = [] \<or> hd (trim_spec l) = CHR ''#''" using skip by simp
    then show ?thesis using True tw lb eo
      by (auto simp: load_line_def env_step_def accepted_def line_diags_def wf_loader_def Let_def)
  next
    case False
    then have ne: "trim_spec l \<noteq> []" and nh: "hd (trim_spec l) \<noteq> CHR ''#''" using skip by simp_all
    have nsp: "\<not> isspace (b ! p)"
      using trim_spec_ends [OF ne] hd_cstr [of b p] ne ct by simp
    obtain res b' e' ds where r: "parse_line b p (entry_buf st) = (res, b', e', ds)"
      by (cases "parse_line b p (entry_buf st)")
    note pf = parse_line_facts [OF tf(2) slb eo r, unfolded ct]
    have ld: "load_line ovr st =
        (let st1 = st\<lparr>line_buf := b', entry_buf := e', err := err st @ ds\<rparr> in
         if res = 0 then
           (if ovr \<or> getenv (env st1) (cstr (name e') 0) = None
            then st1\<lparr>env := snd (setenv (env st1) (cstr (name e') 0) (cstr (val e') 0) True)\<rparr>
            else st1)
         else st1\<lparr>err := err st1 @ [Skipping_invalid_line (cstr b' p)]\<rparr>)"
      using tw False r by (simp add: load_line_def)
    have acc: "accepted l = parse_line_spec (trim_spec l)"
      using ne nh by (simp add: accepted_def)
    show ?thesis
    proof (cases "res = 0")
      case True
      then have ps: "parse_line_spec (trim_spec l) = Some (cstr (name e') 0, cstr (val e') 0)"
        using pf by simp
      then have vn: "valid_name (cstr (name e') 0)" by (rule parse_line_spec_Some)
      have "ds = []"
        using pf ps valid_name_checks(1) [OF vn]
        by (auto simp: parse_line_spec_def Let_def split: if_splits)
      then show ?thesis
        using ld True ps acc pf lb tf(3) valid_name_checks(2) [OF vn] ne nh
        by (simp add: env_step_def line_diags_def getenv_def wf_loader_def Let_def)
    next
      case False
      with pf have ps: "parse_line_spec (trim_spec l) = None" and ee: "e' = entry_buf st" by simp_all
      have "cstr b' p = rejected_text (trim_spec l)"
        using pf False trim_spec_ends [OF ne] by simp
      then show ?thesis
        using ld False ps acc pf lb eo ee ne nh
        by (simp add: env_step_def line_diags_def name_diags_def wf_loader_def Let_def)
    qed
  qed
qed

lemma load_lines_spec:
  "wf_loader st \<Longrightarrow>
   env (load_lines ovr s st) = fold (env_step ovr) (file_lines s) (env st) \<and>
   err (load_lines ovr s st) = err st @ concat (map line_diags (file_lines s)) \<and>
   wf_loader (load_lines ovr s st)"
proof (induction ovr s st rule: load_lines.induct)
  case (1 ovr s st)
  show ?case
  proof (cases "fgets (line_buf st) LINE_SIZE s")
    case None
    then have "s = []" by (simp add: fgets_None)
    moreover have "load_lines ovr s st = st" using None by (simp add: load_lines.simps [of ovr s])
    ultimately show ?thesis using 1(2) by (simp add: file_lines_Nil)
  next
    case (Some x)
    obtain b s' where x: "x = (b, s')" by (cases x)
    let ?st0 = "st\<lparr>line_buf := b\<rparr>"
    have lb: "length (line_buf st) = LINE_SIZE" using 1(2) by (simp add: wf_loader_def)
    note fs = fgets_step [OF Some [unfolded x] lb]
    have wf0: "wf_loader ?st0" using 1(2) fs(1) by (simp add: wf_loader_def)
    note step = load_line_step [OF wf0, of ovr, simplified, OF fs(2,3)]
    have "wf_loader (load_line ovr ?st0)" using step by simp
    note ih = "1.IH" [OF Some x [symmetric], OF this]
    have "load_lines ovr s st = load_lines ovr s' (load_line ovr ?st0)"
      using Some x by (simp add: load_lines.simps [of ovr s])
    then show ?thesis using ih step fs(4) by simp
  qed
qed

lemma assignments_Cons:
  "assignments (l # ls) = (case accepted l of None \<Rightarrow> [] | Some a \<Rightarrow> [a]) @ assignments ls"
  by (simp add: assignments_def map_filter_simps split: option.split)

lemma fold_env_step_override:
  "fold (env_step True) ls e = e ++ map_of (rev (assignments ls))"
proof (induction ls arbitrary: e)
  case (Cons l ls)
  then show ?case
    by (cases "accepted l") (auto simp: assignments_Cons env_step_def map_add_upd_left map_add_assoc)
qed (simp add: assignments_def)

lemma fold_env_step_keep:
  "fold (env_step False) ls e = map_of (assignments ls) ++ e"
proof (induction ls arbitrary: e)
  case (Cons l ls)
  show ?case
  proof (cases "accepted l")
    case (Some a)
    obtain n v where a: "a = (n, v)" by (cases a)
    show ?thesis
      using Some Cons.IH by (auto simp: a assignments_Cons env_step_def map_add_def split: option.split)
  next
    case None
    then have "env_step False l e = e" by (simp add: env_step_def)
    with None Cons.IH show ?thesis by (simp add: assignments_Cons)
  qed
qed (simp add: assignments_def)

lemma accepted_valid: "accepted l = Some (n, v) \<Longrightarrow> valid_name n"
  by (auto simp: accepted_def Let_def split: if_splits intro: parse_line_spec_Some)

lemma assignments_valid: "(n, v) \<in> set (assignments ls) \<Longrightarrow> valid_name n"
  by (auto simp: assignments_def map_filter_def intro: accepted_valid)

lemma dotenv_load_Some:
  "fs path = Some s \<Longrightarrow> dotenv_load fs path ovr st = (0, load_lines ovr s st)"
  by (simp add: dotenv_load_def)

lemma wf_initial_loader: "wf_loader (initial_loader e)"
  by (simp add: initial_loader_def wf_loader_def blank_entry_ok)

lemma fgets_lines_Nil: "fgets_lines [] = []"
  by (simp add: fgets_lines.simps)

lemma fgets_lines_Cons:
  "s \<noteq> [] \<Longrightarrow> fgets_lines s =
     take (fgets_count (LINE_SIZE - 1) s) s # fgets_lines (drop (fgets_count (LINE_SIZE - 1) s) s)"
  by (simp add: fgets_lines.simps [of s] fgets_read_eq)

lemma take_le_takeWhile: "k \<le> length (takeWhile P s) \<Longrightarrow> x \<in> set (take k s) \<Longrightarrow> P x"
proof -
  assume k: "k \<le> length (takeWhile P s)" and x: "x \<in> set (take k s)"
  have "take k s = take k (takeWhile P s @ dropWhile P s)" by (simp only: takeWhile_dropWhile_id)
  also have "\<dots> = take k (takeWhile P s)"
    using k by (simp del: takeWhile_dropWhile_id add: take_append)
  finally have "x \<in> set (takeWhile P s)" using x in_set_takeD by metis
  then show "P x" by (rule set_takeWhileD [THEN conjunct2])
qed

text \<open>Evaluation of the lines of the examples.\<close>

lemma file_lines_short:
  "file_lines (''A=1'' @ [LF]) = [''A=1'' @ [LF]]"
  "file_lines (''B=2'' @ [LF]) = [''B=2'' @ [LF]]"
  "file_lines (''A=1'' @ [LF] @ ''A=2'' @ [LF]) = [''A=1'' @ [LF], ''A=2'' @ [LF]]"
  by (simp_all add: file_lines_def fgets_lines_Cons fgets_lines_Nil fgets_count_def LINE_SIZE_def)

lemma accepted_short:
  "accepted (''A=1'' @ [LF]) = Some (''A'', ''1'')"
  "accepted (''A=2'' @ [LF]) = Some (''A'', ''2'')"
  "accepted (''B=2'' @ [LF]) = Some (''B'', ''2'')"
  by (simp_all add: accepted_def parse_line_spec_def valid_name_def ctype_defs trim_spec_def
      ltrim_def rtrim_def parse_value_spec_def MAX_VAR_NAME_def LINE_SIZE_def)

lemma fgets_lines_long:
  assumes "length l = LINE_SIZE - 1" and "LF \<notin> set l"
  shows "fgets_lines (l @ r) = l # fgets_lines r"
proof -
  have "l \<noteq> []" using assms(1) LINE_SIZE_pos by auto
  moreover have "takeWhile (\<lambda>c. c \<noteq> LF) (l @ r) = l @ takeWhile (\<lambda>c. c \<noteq> LF) r"
    using assms(2) by (auto intro: takeWhile_append2)
  then have "fgets_count (LINE_SIZE - 1) (l @ r) = length l"
    using assms(1) by (simp add: fgets_count_def)
  ultimately show ?thesis by (simp add: fgets_lines_Cons)
qed

text \<open>A file made of short lines, each ended by a newline and free of NUL
  bytes, is read by \<^verbatim>\<open>fgets\<close> one line per call.\<close>

lemma file_lines_newlines:
  assumes "\<forall>l\<in>set ls. LF \<notin> set l \<and> NUL \<notin> set l \<and> length l < LINE_SIZE - 1"
  shows "file_lines (concat (map (\<lambda>l. l @ [LF]) ls)) = map (\<lambda>l. l @ [LF]) ls"
  using assms
proof (induction ls)
  case Nil
  then show ?case by (simp add: file_lines_Nil)
next
  case (Cons l ls)
  let ?r = "concat (map (\<lambda>l. l @ [LF]) ls)"
  have lf: "LF \<notin> set l" and nn: "NUL \<notin> set l" and ln: "length l < LINE_SIZE - 1"
    using Cons.prems by simp_all
  have "takeWhile (\<lambda>c. c \<noteq> LF) (l @ LF # ?r) = l" using lf by (induction l) auto
  then have "fgets_count (LINE_SIZE - 1) (l @ LF # ?r) = Suc (length l)"
    using ln by (simp add: fgets_count_def)
  then have "file_lines (l @ LF # ?r) = takeWhile (\<lambda>c. c \<noteq> NUL) (l @ [LF]) # file_lines ?r"
    by (simp add: file_lines_def fgets_lines_Cons)
  moreover have "takeWhile (\<lambda>c. c \<noteq> NUL) (l @ [LF]) = l @ [LF]"
    using nn by (auto simp: takeWhile_eq_all_conv)
  ultimately show ?case using Cons.IH Cons.prems by simp
qed

text \<open>An assignment line \<open>n=v\<close> with a valid name and a value that does not
  end in a blank is accepted with that name and the decoding of \<open>v\<close>.\<close>

lemma accepted_assign:
  assumes "valid_name n" and "v \<noteq> []" and "\<not> isspace (last v)"
  shows "accepted (n @ ''='' @ v @ [LF]) = Some (n, parse_value_spec v)"
proof -
  let ?x = "n @ ''='' @ v"
  have ok: "name_chars_ok n" and ne: "n \<noteq> []"
    using assms(1) by (simp_all add: valid_name_iff name_chars_ok_def)
  have nsp: "\<not> isspace (hd n)" using name_chars_ok_no_space [OF ok] ne by simp
  have "trim_spec (?x @ [LF]) = ?x"
    using ne nsp assms(2,3) by (intro trim_spec_snoc_space) (simp_all add: isspace_def)
  then have tr: "trim_spec (n @ ''='' @ v @ [LF]) = ?x" by simp
  have hn: "hd ?x \<noteq> CHR ''#''" using name_chars_ok_no_hash [OF ok] ne by (cases n) auto
  have tw: "takeWhile (\<lambda>c. c \<noteq> CHR ''='') ?x = n"
    using name_chars_ok_no_eq [OF ok] by (induction n) auto
  have dw: "dropWhile (\<lambda>c. c \<noteq> CHR ''='') ?x = ''='' @ v"
    using name_chars_ok_no_eq [OF ok] by (induction n) auto
  have "trim_spec n = n"
    using ne nsp name_chars_ok_no_space [OF ok, of "last n"] by (intro trim_spec_id) simp_all
  then show ?thesis
    using tr hn tw dw assms(1) ne
    by (simp add: accepted_def parse_line_spec_def Let_def del: append_assoc)
qed

section \<open>Properties of dotenv_load\<close>

text \<open>C1: Refinement: when the file exists, \<^verbatim>\<open>dotenv_load\<close> returns 0, the
  environment it leaves is the fold of \<open>env_step\<close> over the lines
  \<^verbatim>\<open>fgets\<close> returns, standard error gets the diagnostics of each line in
  order, and the buffers keep their sizes.\<close>

theorem dotenv_load_refines:
  assumes "wf_loader st" and "fs path = Some s"
  shows "case dotenv_load fs path ovr st of (r, st') \<Rightarrow>
     r = 0 \<and> env st' = fold (env_step ovr) (file_lines s) (env st) \<and>
     err st' = err st @ concat (map line_diags (file_lines s)) \<and> wf_loader st'"
  using load_lines_spec [OF assms(1), of ovr s] dotenv_load_Some [where fs = fs and path = path, OF assms(2)] by simp

theorem dotenv_load_refines_witness:
  "case dotenv_load [''.env'' \<mapsto> ''A=1'' @ [LF]] ''.env'' False (initial_loader Map.empty) of
     (r, st') \<Rightarrow> r = 0 \<and> env st' ''A'' = Some ''1'' \<and> err st' = []"
proof -
  have "case dotenv_load [''.env'' \<mapsto> ''A=1'' @ [LF]] ''.env'' False (initial_loader Map.empty) of
     (r, st') \<Rightarrow> r = 0 \<and>
       env st' = fold (env_step False) (file_lines (''A=1'' @ [LF])) (env (initial_loader Map.empty)) \<and>
       err st' = err (initial_loader Map.empty) @ concat (map line_diags (file_lines (''A=1'' @ [LF]))) \<and>
       wf_loader st'"
    by (rule dotenv_load_refines) (simp_all add: wf_initial_loader)
  moreover have "line_diags (''A=1'' @ [LF]) = []"
    using accepted_short(1) by (simp add: line_diags_def accepted_def Let_def split: if_splits)
  ultimately show ?thesis
    by (simp add: file_lines_short [simplified] env_step_def accepted_short [simplified] initial_loader_def
        split: prod.splits)
qed

text \<open>C9: Override semantics: with \<open>override\<close> the file's assignments are
  applied in order over the environment, so the last assignment of a name
  wins; without it the environment's own variables win and, among new names,
  the first assignment in the file.\<close>

theorem dotenv_load_env:
  assumes "wf_loader st" and "fs path = Some s"
  shows "env (snd (dotenv_load fs path ovr st)) =
    (if ovr then env st ++ map_of (rev (assignments (file_lines s)))
     else map_of (assignments (file_lines s)) ++ env st)"
  using load_lines_spec [OF assms(1), of ovr s] dotenv_load_Some [where fs = fs and path = path, OF assms(2)]
    fold_env_step_override fold_env_step_keep by (cases ovr) simp_all

theorem dotenv_load_env_witness:
  "env (snd (dotenv_load [''.env'' \<mapsto> ''A=1'' @ [LF] @ ''A=2'' @ [LF]] ''.env'' True
          (initial_loader Map.empty))) ''A'' = Some ''2''"
proof -
  have "env (snd (dotenv_load [''.env'' \<mapsto> ''A=1'' @ [LF] @ ''A=2'' @ [LF]] ''.env'' True
          (initial_loader Map.empty))) =
    (if True then env (initial_loader Map.empty) ++ map_of (rev (assignments (file_lines (''A=1'' @ [LF] @ ''A=2'' @ [LF]))))
     else map_of (assignments (file_lines (''A=1'' @ [LF] @ ''A=2'' @ [LF]))) ++ env (initial_loader Map.empty))"
    by (rule dotenv_load_env) (simp_all add: wf_initial_loader)
  then show ?thesis
    by (simp add: initial_loader_def file_lines_short [simplified] assignments_def accepted_short [simplified])
qed

text \<open>C10: Without \<open>override\<close> a variable that is already set keeps its value,
  whatever the file says.\<close>

theorem dotenv_load_keeps_existing:
  assumes "wf_loader st" and "env st n = Some v"
  shows "env (snd (dotenv_load fs path False st)) n = Some v"
proof (cases "fs path")
  case (Some s)
  then show ?thesis
    using load_lines_spec [OF assms(1), of False s] dotenv_load_Some [where fs = fs and path = path, OF Some] fold_env_step_keep assms(2)
    by simp
qed (simp add: dotenv_load_def assms(2))

theorem dotenv_load_keeps_existing_witness:
  "env (snd (dotenv_load [''.env'' \<mapsto> ''A=1'' @ [LF]] ''.env'' False
          (initial_loader [''A'' \<mapsto> ''0'']))) ''A'' = Some ''0''"
  by (rule dotenv_load_keeps_existing) (simp_all add: wf_loader_def blank_entry_ok initial_loader_def)

text \<open>C12: Safety: \<^verbatim>\<open>dotenv_load\<close> changes a variable of the environment
  only if its name is a valid identifier of at most 256 bytes, whether or not
  the file exists and whatever it holds.\<close>

theorem dotenv_load_valid_names:
  assumes "wf_loader st"
    and "env (snd (dotenv_load fs path ovr st)) n \<noteq> env st n"
  shows "valid_name n"
proof (cases "fs path")
  case None
  then show ?thesis using assms(2) by (simp add: dotenv_load_def)
next
  case (Some s)
  have e: "env (snd (dotenv_load fs path ovr st)) =
      fold (env_step ovr) (file_lines s) (env st)"
    using load_lines_spec [OF assms(1), of ovr s] dotenv_load_Some [where fs = fs and path = path, OF Some]
    by simp
  obtain v where "map_of (assignments (file_lines s)) n = Some v \<or>
                  map_of (rev (assignments (file_lines s))) n = Some v"
    using assms(2) unfolding e
    by (cases ovr) (auto simp: fold_env_step_override fold_env_step_keep map_add_def split: option.splits)
  then have "(n, v) \<in> set (assignments (file_lines s))"
    by (auto dest: map_of_SomeD)
  then show ?thesis by (rule assignments_valid)
qed

theorem dotenv_load_valid_names_witness:
  "valid_name ''A''"
proof (rule dotenv_load_valid_names)
  show "wf_loader (initial_loader Map.empty)" by (rule wf_initial_loader)
  show "env (snd (dotenv_load [''.env'' \<mapsto> ''A=1'' @ [LF]] ''.env'' True (initial_loader Map.empty))) ''A''
        \<noteq> env (initial_loader Map.empty) ''A''"
    using load_lines_spec [OF wf_initial_loader, of True "''A=1'' @ [LF]"]
    by (simp add: dotenv_load_def initial_loader_def file_lines_short [simplified] env_step_def
        accepted_short [simplified])
qed

text \<open>C22: A line longer than \<open>LINE_SIZE - 2\<close> bytes before its newline is split
  by \<^verbatim>\<open>fgets\<close>: its first 1023 bytes are processed as one line and the rest
  as the next one, so the tail of a long value is parsed as an assignment of
  its own. The spec (4.6) says lines are read whole.\<close>

theorem dotenv_load_long_line_split:
  assumes "wf_loader st" and "fs path = Some (l @ r)"
    and "length l = LINE_SIZE - 1" and "LF \<notin> set l" and "NUL \<notin> set l"
  shows "env (snd (dotenv_load fs path ovr st)) =
         fold (env_step ovr) (file_lines r) (env_step ovr l (env st))"
proof -
  have "takeWhile (\<lambda>c. c \<noteq> NUL) l = l" using assms(5) by (auto simp: takeWhile_eq_all_conv)
  then have "file_lines (l @ r) = l # file_lines r"
    using fgets_lines_long [OF assms(3,4)] by (simp add: file_lines_def)
  then show ?thesis
    using load_lines_spec [OF assms(1), of ovr "l @ r"]
      dotenv_load_Some [where fs = fs and path = path, OF assms(2)] by simp
qed

theorem dotenv_load_long_line_split_witness:
  "env (snd (dotenv_load [''.env'' \<mapsto> ''A='' @ replicate 1021 CHR ''x'' @ ''B=2'' @ [LF]] ''.env'' True
     (initial_loader Map.empty))) ''B'' = Some ''2''"
proof -
  have "env (snd (dotenv_load [''.env'' \<mapsto> (''A='' @ replicate 1021 CHR ''x'') @ (''B=2'' @ [LF])] ''.env'' True
     (initial_loader Map.empty))) =
     fold (env_step True) (file_lines (''B=2'' @ [LF]))
       (env_step True (''A='' @ replicate 1021 CHR ''x'') (env (initial_loader Map.empty)))"
    by (rule dotenv_load_long_line_split) (simp_all add: wf_initial_loader LINE_SIZE_def)
  then show ?thesis
    by (simp add: file_lines_short [simplified] env_step_def accepted_short [simplified])
qed

end
