(* ===== verification/Main_Prog.thy ===== *)
theory Main_Prog
  imports Loader
begin

text \<open>
  \<^verbatim>\<open>main\<close> of \<^verbatim>\<open>src/main.c\<close>: load \<^verbatim>\<open>example/.env\<close> with override and print
  \<^verbatim>\<open>API_KEY\<close>, or a failure message. Standard output is a string; passing the
  NULL that \<^verbatim>\<open>getenv\<close> returns for an unset variable to \<^verbatim>\<open>printf\<close>'s
  \<^verbatim>\<open>%s\<close> is undefined behaviour in C, modelled as the output \<open>None\<close>.
\<close>

definition main_prog :: "filesystem \<Rightarrow> loader \<Rightarrow> int \<times> loader \<times> string option" where
  "main_prog fs st =
     (case dotenv_load fs ''example/.env'' True st of (r, st') \<Rightarrow>
        if r = 0 then
          (case getenv (env st') ''API_KEY'' of
             None \<Rightarrow> (0, st', None)
           | Some v \<Rightarrow> (0, st', Some (''API_KEY='' @ v @ [LF])))
        else (0, st', Some (''Failed to load .env file.'' @ [LF])))"

lemma dotenv_load_env_fold:
  assumes "wf_loader st" and "fs path = Some s"
  shows "env (snd (dotenv_load fs path ovr st)) = fold (env_step ovr) (file_lines s) (env st)"
  using load_lines_spec [OF assms(1), of ovr s] dotenv_load_Some [where fs = fs and path = path, OF assms(2)]
  by simp

lemma file_lines_API:
  "file_lines (''API_KEY=1'' @ [LF]) = [''API_KEY=1'' @ [LF]]"
  by (simp add: file_lines_def fgets_lines_Cons fgets_lines_Nil fgets_count_def LINE_SIZE_def)

lemma accepted_API: "accepted (''API_KEY=1'' @ [LF]) = Some (''API_KEY'', ''1'')"
  by (simp add: accepted_def parse_line_spec_def valid_name_def ctype_defs trim_spec_def
      ltrim_def rtrim_def parse_value_spec_def MAX_VAR_NAME_def LINE_SIZE_def)

section \<open>Properties of main\<close>

text \<open>C25: When \<^verbatim>\<open>example/.env\<close> exists, \<^verbatim>\<open>main\<close> prints \<^verbatim>\<open>API_KEY=\<close> followed by
  the value the loader leaves for \<^verbatim>\<open>API_KEY\<close>, that is the last assignment of
  the file or, if there is none, the variable inherited from the environment;
  if neither exists, the \<^verbatim>\<open>printf\<close> call has undefined behaviour. When the
  file is missing it prints the failure message. It always returns 0.\<close>

theorem main_prog_output:
  assumes "wf_loader st"
  shows "case main_prog fs st of (r, st', out) \<Rightarrow>
     r = 0 \<and>
     out = (case fs ''example/.env'' of
              None \<Rightarrow> Some (''Failed to load .env file.'' @ [LF])
            | Some s \<Rightarrow>
                map_option (\<lambda>v. ''API_KEY='' @ v @ [LF])
                  (fold (env_step True) (file_lines s) (env st) ''API_KEY''))"
proof (cases "fs ''example/.env''")
  case None
  then show ?thesis by (simp add: main_prog_def dotenv_load_def)
next
  case (Some s)
  have e: "env (snd (dotenv_load fs ''example/.env'' True st)) = fold (env_step True) (file_lines s) (env st)"
    using dotenv_load_env_fold [where fs = fs and path = "''example/.env''", OF assms Some] .
  show ?thesis
    using Some e by (simp add: main_prog_def dotenv_load_def getenv_def split: option.split)
qed

theorem main_prog_output_witness:
  "case main_prog [''example/.env'' \<mapsto> ''API_KEY=1'' @ [LF]] (initial_loader Map.empty) of
     (r, st', out) \<Rightarrow> r = 0 \<and> out = Some (''API_KEY=1'' @ [LF])"
proof -
  have "case main_prog [''example/.env'' \<mapsto> ''API_KEY=1'' @ [LF]] (initial_loader Map.empty) of (r, st', out) \<Rightarrow>
     r = 0 \<and>
     out = (case [''example/.env'' \<mapsto> ''API_KEY=1'' @ [LF]] ''example/.env'' of
              None \<Rightarrow> Some (''Failed to load .env file.'' @ [LF])
            | Some s \<Rightarrow>
                map_option (\<lambda>v. ''API_KEY='' @ v @ [LF])
                  (fold (env_step True) (file_lines s) (env (initial_loader Map.empty)) ''API_KEY''))"
    by (rule main_prog_output) (rule wf_initial_loader)
  then show ?thesis
    by (simp add: file_lines_API [simplified] env_step_def accepted_API [simplified] initial_loader_def
        split: prod.splits)
qed

text \<open>C26: A file that exists but assigns no \<^verbatim>\<open>API_KEY\<close>, in an environment
  without it, makes \<^verbatim>\<open>main\<close> pass NULL to \<^verbatim>\<open>printf\<close>.\<close>

theorem main_prog_null_printf:
  assumes "wf_loader st" and "fs ''example/.env'' = Some s"
    and "env st ''API_KEY'' = None" and "''API_KEY'' \<notin> fst ` set (assignments (file_lines s))"
  shows "snd (snd (main_prog fs st)) = None"
proof -
  have e: "env (snd (dotenv_load fs ''example/.env'' True st)) = env st ++ map_of (rev (assignments (file_lines s)))"
    using dotenv_load_env_fold [where fs = fs and path = "''example/.env''", OF assms(1,2)] fold_env_step_override by simp
  have "map_of (rev (assignments (file_lines s))) ''API_KEY'' = None"
    using assms(4) by (simp add: map_of_eq_None_iff)
  then show ?thesis
    using assms(2,3) e by (simp add: main_prog_def dotenv_load_def getenv_def map_add_def)
qed

theorem main_prog_null_printf_witness:
  "snd (snd (main_prog [''example/.env'' \<mapsto> []] (initial_loader Map.empty))) = None"
  by (rule main_prog_null_printf [where s = "[]"])
    (simp_all add: wf_loader_def blank_entry_ok initial_loader_def file_lines_def fgets_lines_Nil assignments_def)

end
