(* ===== verification/Tests.thy ===== *)
theory Tests
  imports Main_Prog
begin

text \<open>
  Definitions shared by the tests of \<^verbatim>\<open>src/test_dotenv.c\<close>.
  \<open>test_env_loading\<close> is the helper of the same name: it writes the content to
  \<^verbatim>\<open>test.env\<close>, calls \<^verbatim>\<open>dotenv_load\<close> and asserts that it returned 0
  (\<open>None\<close> is a failed assertion); the result is the environment afterwards.
  The C string literals are written with \<open>LF\<close>, \<open>DQUOTE\<close> and
  \<open>BACKSLASH\<close> for the escapes \<^verbatim>\<open>\n\<close>, \<^verbatim>\<open>\"\<close> and \<^verbatim>\<open>\\\<close>. The two
  large-file tests are functions of the environment here, with their
  generating loops, proved for every line count up to \<open>10^250\<close>; theory
  \<open>Test_Suite\<close> defines the other tests as such functions and runs them all
  in the order of \<^verbatim>\<open>main\<close>.
\<close>

definition test_env_loading :: "string \<Rightarrow> bool \<Rightarrow> environ \<Rightarrow> environ option" where
  "test_env_loading content override e =
     (case dotenv_load [''test.env'' \<mapsto> content] ''test.env'' override (initial_loader e) of
        (r, st') \<Rightarrow> if r = 0 then Some (env st') else None)"

text \<open>\<^verbatim>\<open>snprintf(buf, n, "%d", i)\<close> and the \<^verbatim>\<open>%d\<close> of \<^verbatim>\<open>fprintf\<close>
  for a non-negative \<^verbatim>\<open>int\<close>: its decimal digits, most significant first
  (the buffers of the test are large enough for every index it prints).\<close>

fun dec :: "nat \<Rightarrow> string" where
  "dec n = (if n < 10 then [char_of (48 + n)] else dec (n div 10) @ [char_of (48 + n mod 10)])"

declare dec.simps [simp del]

text \<open>\<^verbatim>\<open>test_large_file\<close> and \<^verbatim>\<open>test_extremely_large_file\<close> (they differ in
  the file name and the count): write \<open>n\<close> lines \<^verbatim>\<open>VAR%d=value%d\<close>, load the
  file with override, assert that the result is 0 and that every
  \<^verbatim>\<open>VARi\<close> is \<^verbatim>\<open>valuei\<close>. The result is whether every assertion holds.\<close>

definition large_env_content :: "nat \<Rightarrow> string" where
  "large_env_content n =
     concat (map (\<lambda>i. ''VAR'' @ dec i @ ''='' @ ''value'' @ dec i @ [LF]) [0..<n])"

definition large_file_test :: "string \<Rightarrow> nat \<Rightarrow> environ \<Rightarrow> environ option" where
  "large_file_test path n e =
     (case dotenv_load [path \<mapsto> large_env_content n] path True (initial_loader e) of
        (r, st') \<Rightarrow>
          if r = 0 \<and> (\<forall>i<n. getenv (env st') (''VAR'' @ dec i) = Some (''value'' @ dec i))
          then Some (env st') else None)"

definition test_large_file :: "environ \<Rightarrow> environ option" where
  "test_large_file e = large_file_test ''large_test.env'' 1000 e"

definition test_extremely_large_file :: "environ \<Rightarrow> environ option" where
  "test_extremely_large_file e = large_file_test ''huge_test.env'' 100000 e"

lemmas spec_eval = file_lines_def fgets_lines_Cons fgets_lines_Nil fgets_count_def LINE_SIZE_def
  env_step_def accepted_def parse_line_spec_def valid_name_def ctype_defs trim_spec_def ltrim_def
  rtrim_def parse_value_spec_def MAX_VAR_NAME_def unescape_def

lemma test_env_loading_fold:
  "test_env_loading content ovr e = Some (fold (env_step ovr) (file_lines content) e)"
proof -
  have "env (snd (dotenv_load [''test.env'' \<mapsto> content] ''test.env'' ovr (initial_loader e))) =
        fold (env_step ovr) (file_lines content) (env (initial_loader e))"
    by (rule dotenv_load_env_fold) (simp_all add: wf_initial_loader)
  then show ?thesis
    by (simp add: test_env_loading_def dotenv_load_def initial_loader_def)
qed

lemma accepted_no_eq:
  assumes "l \<noteq> []" and "\<forall>c\<in>set l. \<not> isspace c" and "CHR ''='' \<notin> set l"
  shows "accepted l = None"
proof -
  have "trim_spec l = l" using assms(1,2) by (intro trim_spec_id) auto
  then show ?thesis using assms(3) by (simp add: accepted_def parse_line_spec_def Let_def)
qed

lemma long_A_lines:
  "file_lines (replicate 2047 CHR ''A'') =
     [replicate 1023 CHR ''A'', replicate 1023 CHR ''A'', [CHR ''A'']]"
proof -
  have split: "replicate 2047 CHR ''A'' =
      replicate 1023 CHR ''A'' @ replicate 1023 CHR ''A'' @ [CHR ''A'']"
  proof -
    have "replicate 2047 CHR ''A'' = replicate (1023 + (1023 + 1)) CHR ''A''" by simp
    also have "\<dots> = replicate 1023 CHR ''A'' @ replicate 1023 CHR ''A'' @ replicate 1 CHR ''A''"
      by (simp only: replicate_add)
    finally show ?thesis by simp
  qed
  have l: "length (replicate 1023 CHR ''A'') = LINE_SIZE - 1" "LF \<notin> set (replicate 1023 CHR ''A'')"
    by (simp_all add: LINE_SIZE_def)
  show ?thesis
    unfolding split file_lines_def fgets_lines_long [OF l]
    by (simp add: fgets_lines_Cons fgets_lines_Nil fgets_count_def LINE_SIZE_def)
qed

lemma isdigit_dec: "c \<in> set (dec n) \<Longrightarrow> isdigit c"
proof (induction n rule: dec.induct)
  case (1 n)
  then show ?case
    by (cases "n < 10") (auto simp: dec.simps [of n] isdigit_def of_char_of)
qed

lemma dec_ne: "dec n \<noteq> []"
  by (simp add: dec.simps [of n])

lemma length_dec: "n < 10 ^ k \<Longrightarrow> 0 < k \<Longrightarrow> length (dec n) \<le> k"
proof (induction n arbitrary: k rule: dec.induct)
  case (1 n)
  show ?case
  proof (cases "n < 10")
    case True
    then show ?thesis using "1.prems"(2) by (simp add: dec.simps [of n])
  next
    case False
    obtain k' where k: "k = Suc k'" using "1.prems"(2) by (cases k) auto
    have "n div 10 < 10 ^ k'" using "1.prems"(1) k by (simp add: less_mult_imp_div_less mult.commute)
    moreover have "0 < k'" using False "1.prems"(1) k by (cases k') auto
    ultimately have "length (dec (n div 10)) \<le> k'" using "1.IH" False by blast
    then show ?thesis using False k by (simp add: dec.simps [of n])
  qed
qed

lemma isdigit_facts:
  "isdigit c \<Longrightarrow> \<not> isspace c \<and> c \<noteq> NUL \<and> c \<noteq> LF \<and> c \<noteq> CHR ''#'' \<and> c \<noteq> CHR ''='' \<and> isalnum c"
  by (auto simp: ctype_defs)

lemma map_filter_all_Some:
  "(\<And>x. x \<in> set xs \<Longrightarrow> f (h x) = Some (g x)) \<Longrightarrow> List.map_filter f (map h xs) = map g xs"
  by (induction xs) (simp_all add: map_filter_simps)

lemma large_line_facts:
  assumes "i < 10 ^ 250"
  shows "LF \<notin> set (''VAR'' @ dec i @ ''='' @ ''value'' @ dec i) \<and>
         NUL \<notin> set (''VAR'' @ dec i @ ''='' @ ''value'' @ dec i) \<and>
         length (''VAR'' @ dec i @ ''='' @ ''value'' @ dec i) < LINE_SIZE - 1 \<and>
         accepted (''VAR'' @ dec i @ ''='' @ ''value'' @ dec i @ [LF]) = Some (''VAR'' @ dec i, ''value'' @ dec i)"
proof -
  have d: "\<And>c. c \<in> set (dec i) \<Longrightarrow> \<not> isspace c \<and> c \<noteq> NUL \<and> c \<noteq> LF \<and> c \<noteq> CHR ''#'' \<and>
      c \<noteq> CHR ''='' \<and> isalnum c"
    using isdigit_dec isdigit_facts by blast
  have ld: "length (dec i) \<le> 250" using length_dec [OF assms] by simp
  have vn: "valid_name (''VAR'' @ dec i)"
    using ld d by (auto simp: valid_name_def ctype_defs MAX_VAR_NAME_def)
  have lv: "last (''value'' @ dec i) \<in> set (dec i)" using dec_ne [of i] by simp
  have pv: "parse_value_spec (''value'' @ dec i) = ''value'' @ dec i"
    using d ld by (intro parse_value_spec_plain) (auto simp: isspace_def LINE_SIZE_def dec_ne)
  have "accepted ((''VAR'' @ dec i) @ ''='' @ (''value'' @ dec i) @ [LF]) =
      Some (''VAR'' @ dec i, parse_value_spec (''value'' @ dec i))"
    using vn by (rule accepted_assign) (use d lv in simp_all)
  then show ?thesis using d ld pv by (auto simp: LINE_SIZE_def)
qed

lemma map_of_rev_key:
  assumes "i \<in> set xs" and "\<And>j. j \<in> set xs \<Longrightarrow> k j = k i \<Longrightarrow> v j = v i"
  shows "map_of (rev (map (\<lambda>j. (k j, v j)) xs)) (k i) = Some (v i)"
proof -
  have "k i \<in> fst ` set (rev (map (\<lambda>j. (k j, v j)) xs))" using assms(1) by force
  then have "map_of (rev (map (\<lambda>j. (k j, v j)) xs)) (k i) \<noteq> None"
    unfolding map_of_eq_None_iff by blast
  then obtain w where w: "map_of (rev (map (\<lambda>j. (k j, v j)) xs)) (k i) = Some w" by blast
  then have "(k i, w) \<in> set (rev (map (\<lambda>j. (k j, v j)) xs))" by (rule map_of_SomeD)
  then obtain j where "j \<in> set xs" and "k j = k i" and "w = v j" by auto
  then show ?thesis using w assms(2) by simp
qed

section \<open>The large-file tests\<close>

lemma large_file_loaded:
  assumes "n \<le> 10 ^ 250"
  shows "\<forall>i<n. getenv (env (snd (dotenv_load [path \<mapsto> large_env_content n] path True (initial_loader e))))
      (''VAR'' @ dec i) = Some (''value'' @ dec i)"
proof -
  let ?L = "\<lambda>i. ''VAR'' @ dec i @ ''='' @ ''value'' @ dec i"
  let ?P = "\<lambda>i. (''VAR'' @ dec i, ''value'' @ dec i)"
  have f: "\<And>i. i \<in> set [0..<n] \<Longrightarrow> i < 10 ^ 250" using assms by auto
  have c: "large_env_content n = concat (map (\<lambda>l. l @ [LF]) (map ?L [0..<n]))"
    by (simp add: large_env_content_def comp_def)
  have fl: "file_lines (large_env_content n) = map (\<lambda>l. l @ [LF]) (map ?L [0..<n])"
    unfolding c by (rule file_lines_newlines) (use f large_line_facts in auto)
  have "assignments (file_lines (large_env_content n)) = map ?P [0..<n]"
    unfolding fl assignments_def map_map comp_def
    by (rule map_filter_all_Some) (use f large_line_facts in auto)
  moreover have "env (snd (dotenv_load [path \<mapsto> large_env_content n] path True (initial_loader e))) =
      fold (env_step True) (file_lines (large_env_content n)) (env (initial_loader e))"
    by (rule dotenv_load_env_fold) (simp_all add: wf_initial_loader)
  ultimately have e: "env (snd (dotenv_load [path \<mapsto> large_env_content n] path True (initial_loader e))) =
      e ++ map_of (rev (map ?P [0..<n]))"
    by (simp add: fold_env_step_override initial_loader_def)
  have "\<forall>i<n. (e ++ map_of (rev (map ?P [0..<n]))) (''VAR'' @ dec i) = Some (''value'' @ dec i)"
    using map_of_rev_key [of _ "[0..<n]" "\<lambda>j. ''VAR'' @ dec j" "\<lambda>j. ''value'' @ dec j"] by simp
  then show ?thesis using e by (simp add: getenv_def)
qed

lemma large_file_test_Some:
  assumes "n \<le> 10 ^ 250"
  shows "large_file_test path n e =
    Some (env (snd (dotenv_load [path \<mapsto> large_env_content n] path True (initial_loader e))))"
  using large_file_loaded [OF assms, of path e] by (simp add: large_file_test_def dotenv_load_def)

text \<open>C31: \<^verbatim>\<open>test_large_file\<close> and \<^verbatim>\<open>test_extremely_large_file\<close> for every
  line count up to \<open>10^250\<close> (where the name \<^verbatim>\<open>VARi\<close> still fits the
  256-byte limit): every generated line is read whole, accepted, and each
  \<^verbatim>\<open>VARi\<close> ends up as \<^verbatim>\<open>valuei\<close>, whatever the environment held.\<close>

theorem large_file_test_passes:
  assumes "n \<le> 10 ^ 250"
  shows "\<exists>e'. large_file_test path n e = Some e'"
  using large_file_test_Some [OF assms, of path e] by simp

theorem large_file_test_passes_witness:
  "test_large_file Map.empty \<noteq> None \<and> test_extremely_large_file Map.empty \<noteq> None"
  using large_file_test_passes [of 1000 "''large_test.env''" Map.empty]
    large_file_test_passes [of 100000 "''huge_test.env''" Map.empty]
  by (auto simp: test_large_file_def test_extremely_large_file_def)

end
