(* ===== verification/Loop.thy ===== *)
theory Loop
  imports Loader
begin

text \<open>
  The \<^verbatim>\<open>while (fgets(line, LINE_SIZE, file))\<close> loop of \<^verbatim>\<open>dotenv_load\<close>
  (\<^verbatim>\<open>src/dotenv.c\<close>, lines 118--133) as a transition system. A
  configuration is the rest of the file and the loader's state; one step is
  one successful \<^verbatim>\<open>fgets\<close> followed by the loop body \<open>load_line\<close>; the loop
  leaves when \<^verbatim>\<open>fgets\<close> returns NULL, which is when no step is possible.
  \<open>load_steps\<close> counts the iterations of a run. The theorem shows by rule
  induction that the invariant (buffer sizes, and the environment and
  standard error being the fold over the lines read so far) holds along every
  run; the lemmas show that a run from any configuration reaches the end of
  the file after one iteration per line, in the state computed by the
  function \<open>load_lines\<close> of theory \<open>Loader\<close>.
\<close>

type_synonym config = "string \<times> loader"

inductive load_step :: "bool \<Rightarrow> config \<Rightarrow> config \<Rightarrow> bool" for override where
  read: "fgets (line_buf st) LINE_SIZE s = Some (b, s') \<Longrightarrow>
         load_step override (s, st) (s', load_line override (st\<lparr>line_buf := b\<rparr>))"

inductive load_steps :: "bool \<Rightarrow> config \<Rightarrow> nat \<Rightarrow> config \<Rightarrow> bool" for override where
  refl: "load_steps override c 0 c"
| step: "load_step override c c' \<Longrightarrow> load_steps override c' n c'' \<Longrightarrow>
         load_steps override c (Suc n) c''"

inductive_cases load_step_cases: "load_step override (s, st) c'"
inductive_simps load_step_simps: "load_step override (s, st) c'"
inductive_cases load_steps_0E: "load_steps override c 0 c'"
inductive_cases load_steps_SucE: "load_steps override c (Suc n) c'"

section \<open>Lemmas\<close>

lemma load_step_det: "load_step ovr c c' \<Longrightarrow> load_step ovr c c'' \<Longrightarrow> c'' = c'"
  by (auto elim!: load_step.cases)

lemma load_step_stuck: "(\<exists>c'. load_step ovr (s, st) c') \<longleftrightarrow> s \<noteq> []"
  using fgets_None [of "line_buf st" LINE_SIZE s]
  by (cases "fgets (line_buf st) LINE_SIZE s") (auto simp: load_step_simps)

lemma load_step_shorter: "load_step ovr (s, st) (s', st') \<Longrightarrow> length s' < length s"
  by (auto elim!: load_step_cases dest: fgets_shorter)

lemma load_step_lines:
  "load_step ovr (s, st) (s', st') \<Longrightarrow> fgets_lines s = hd (fgets_lines s) # fgets_lines s'"
proof -
  assume "load_step ovr (s, st) (s', st')"
  then obtain b where f: "fgets (line_buf st) LINE_SIZE s = Some (b, s')" by (auto elim: load_step_cases)
  then have ne: "s \<noteq> []" and s': "s' = drop (fgets_count (LINE_SIZE - 1) s) s"
    by (auto simp: fgets_def fgets_read_eq split: if_splits)
  show ?thesis unfolding fgets_lines_Cons [OF ne] s' by simp
qed

lemma load_steps_load_lines:
  "load_steps ovr (s, st) (length (fgets_lines s)) ([], load_lines ovr s st)"
proof (induction ovr s st rule: load_lines.induct)
  case (1 ovr s st)
  show ?case
  proof (cases "fgets (line_buf st) LINE_SIZE s")
    case None
    then have "s = []" by (simp add: fgets_None)
    moreover have "load_lines ovr s st = st" using None by (simp add: load_lines.simps [of ovr s])
    ultimately show ?thesis by (simp add: fgets_lines_Nil load_steps.refl)
  next
    case (Some x)
    obtain b s' where x: "x = (b, s')" by (cases x)
    have st: "load_step ovr (s, st) (s', load_line ovr (st\<lparr>line_buf := b\<rparr>))"
      using Some x by (simp add: load_step.read)
    have "fgets_lines s = hd (fgets_lines s) # fgets_lines s'"
      using st by (rule load_step_lines)
    then have "length (fgets_lines s) = Suc (length (fgets_lines s'))" by (metis length_Cons)
    moreover have "load_lines ovr s st = load_lines ovr s' (load_line ovr (st\<lparr>line_buf := b\<rparr>))"
      using Some x by (simp add: load_lines.simps [of ovr s])
    ultimately show ?thesis
      using load_steps.step [OF st "1.IH" [OF Some x [symmetric]]] by simp
  qed
qed

section \<open>Properties of the loop\<close>

text \<open>C29: Invariant of the loop, by rule induction over runs: after \<open>n\<close>
  iterations from a state whose buffers have their sizes, the lines consumed
  are the first \<open>n\<close> lines of the file, the environment is the fold of
  \<open>env_step\<close> over them, standard error holds their diagnostics in order,
  and the buffers still have their sizes.\<close>

theorem load_steps_inv:
  "load_steps ovr (s, st) n (s', st') \<Longrightarrow> wf_loader st \<Longrightarrow>
   file_lines s = take n (file_lines s) @ file_lines s' \<and>
   env st' = fold (env_step ovr) (take n (file_lines s)) (env st) \<and>
   err st' = err st @ concat (map line_diags (take n (file_lines s))) \<and> wf_loader st'"
proof (induction "(s, st)" n "(s', st')" arbitrary: s st rule: load_steps.induct)
  case refl
  then show ?case by simp
next
  case (step c1 n)
  obtain s1 st1 where c1: "c1 = (s1, st1)" by (cases c1)
  from step.hyps(1) [unfolded c1] obtain b where
    f: "fgets (line_buf st) LINE_SIZE s = Some (b, s1)" and
    st1: "st1 = load_line ovr (st\<lparr>line_buf := b\<rparr>)"
    by (auto elim: load_step_cases)
  have lb: "length (line_buf st) = LINE_SIZE" using step.prems by (simp add: wf_loader_def)
  note fs = fgets_step [OF f lb]
  have wf0: "wf_loader (st\<lparr>line_buf := b\<rparr>)" using step.prems fs(1) by (simp add: wf_loader_def)
  note ls = load_line_step [OF wf0, of ovr, simplified, OF fs(2,3)]
  have ih: "file_lines s1 = take n (file_lines s1) @ file_lines s' \<and>
      env st' = fold (env_step ovr) (take n (file_lines s1)) (env st1) \<and>
      err st' = err st1 @ concat (map line_diags (take n (file_lines s1))) \<and> wf_loader st'"
    using step.hyps(3) [OF c1] ls st1 by simp
  show ?case using ih ls st1 fs(4) by simp
qed

theorem load_steps_inv_witness:
  "env (load_lines True (''A=1'' @ [LF]) (initial_loader Map.empty)) ''A'' = Some ''1''"
proof -
  have run: "load_steps True (''A=1'' @ [LF], initial_loader Map.empty) (length (fgets_lines (''A=1'' @ [LF])))
      ([], load_lines True (''A=1'' @ [LF]) (initial_loader Map.empty))"
    by (rule load_steps_load_lines)
  have "env (load_lines True (''A=1'' @ [LF]) (initial_loader Map.empty)) =
      fold (env_step True) (take (length (fgets_lines (''A=1'' @ [LF]))) (file_lines (''A=1'' @ [LF])))
        (env (initial_loader Map.empty))"
    using load_steps_inv [OF run wf_initial_loader] by simp
  moreover have "length (fgets_lines (''A=1'' @ [LF])) = 1"
    using arg_cong [OF file_lines_short(1), of length] by (simp add: file_lines_def)
  ultimately show ?thesis
    by (simp add: file_lines_short [simplified] env_step_def accepted_short [simplified]
        initial_loader_def)
qed

end
