(* ===== verification/Spec2Isabelle.thy ===== *)
theory Spec2Isabelle
  imports Main_Prog Test_Suite Loop
begin

text \<open>
  \<^bold>\<open>A verification library for dotenv-loader.\<close>

  The program (\<^verbatim>\<open>src/dotenv.c\<close>, \<^verbatim>\<open>src/dotenv.h\<close>) reads a \<^verbatim>\<open>.env\<close> file
  line by line with \<^verbatim>\<open>fgets\<close> into a stack buffer of \<open>LINE_SIZE\<close> = 1024
  bytes, trims each line, skips blank and comment lines, splits the rest at the
  first \<open>=\<close>, validates the name, decodes the value (quoted with escapes, or
  unquoted with an inline \<open>#\<close> comment) into a \<^verbatim>\<open>dotenv_entry\<close> and sets
  the variable with \<^verbatim>\<open>setenv\<close> unless it exists and \<open>override\<close> is false.
  Every helper mutates the line buffer in place; the diagnostic printed for a
  rejected line reads that mutated buffer. \<^verbatim>\<open>src/main.c\<close> loads
  \<^verbatim>\<open>example/.env\<close> and prints \<^verbatim>\<open>API_KEY\<close>; \<^verbatim>\<open>src/test_dotenv.c\<close> holds
  the tests.

  \<^bold>\<open>Memory model.\<close> A C array is a \<open>cbuf\<close> (a byte list of fixed length), a
  pointer an index into it, and the string it denotes \<open>cstr b p\<close>, the bytes
  up to the first NUL (theory \<open>Prelude\<close>). Every function that writes through
  a pointer takes the buffer and returns it updated, so the aliasing between
  the helpers (the name and the value of a line share one buffer, the caller
  prints the buffer after \<^verbatim>\<open>parse_line\<close> has cut it) is explicit. Loops that
  advance a pointer are \<^theory_text>\<open>function\<close>s with a measure; the code reads only
  inside terminated strings, which the lemmas establish, so the bounds guards
  added for termination never stop a loop the C code would continue. An open
  file is the list of its remaining bytes; the file system a map from paths
  to contents; the process environment a map from names to values; standard
  error the list of messages (\<open>diag\<close>) written to it.

  \<^bold>\<open>Theories\<close>, each with a string-level reference semantics and a
  refinement lemma connecting the C-level definitions to it:
  \<^item> \<open>Prelude\<close>: \<open>LINE_SIZE\<close>, \<open>MAX_VAR_NAME\<close> (dotenv.h); the C-locale
    \<^verbatim>\<open>ctype\<close> predicates; \<open>cstr\<close>, \<open>strlen\<close>, \<open>strchr\<close>, \<open>strncpy\<close>,
    \<open>memwrite\<close>, \<open>getenv\<close>, \<open>setenv\<close> of the C library; lemmas on buffers.
  \<^item> \<open>Trim\<close>: \<^verbatim>\<open>trim_whitespace\<close> as \<open>skip_leading\<close>, \<open>skip_trailing\<close> and
    \<open>trim_whitespace\<close>; reference \<open>trim_spec\<close>; exact effect on the buffer
    (\<open>trim_whitespace_eq\<close>), refinement, the spec's contract (4.1),
    idempotence, and that the carriage-return step is dead code.
  \<^item> \<open>Value\<close>: \<^verbatim>\<open>parse_value\<close> with its quoted loop \<open>decode_quoted\<close>;
    reference \<open>parse_value_spec\<close> with decoder \<open>decode\<close>, and the spec's
    state machine (4.5) as the inductive \<open>decode_step\<close>/\<open>decode_run\<close>;
    refinement, the escape round trip (\<open>quote_value\<close>), quoted values taken
    verbatim up to the closing quote, comment stripping of unquoted values,
    the output bound, and that \<open>#\<close> cannot be escaped in unquoted values.
  \<^item> \<open>Name\<close>: \<^verbatim>\<open>is_valid_variable_name\<close> returning its result and its
    diagnostic; equivalence with the grammar \<open>valid_name\<close> (4.3).
  \<^item> \<open>Line\<close>: the record \<open>dotenv_entry\<close> and \<^verbatim>\<open>parse_line\<close>; reference
    \<open>parse_line_spec\<close> (4.4); refinement, the entry invariant (no entry with an
    invalid name), the entry's fields being C strings inside their arrays, and
    the text printed for a rejected line.
  \<^item> \<open>Loader\<close>: \<^verbatim>\<open>fgets\<close> (\<open>fgets_read\<close>, \<open>fgets\<close>), the state record
    \<open>loader\<close> (locals \<^verbatim>\<open>line\<close>, \<^verbatim>\<open>entry\<close>, environment, standard error), the
    loop body \<open>load_line\<close>, the loop \<open>load_lines\<close> and \<open>dotenv_load\<close>;
    reference: the lines \<open>fgets_lines\<close> and the per-line \<open>env_step\<close> and
    \<open>line_diags\<close>. Refinement to a fold, override semantics in closed form
    (\<open>map_of\<close> of the file's \<open>assignments\<close>), existing variables kept
    without override, only valid names set, and the splitting of long
    lines.
  \<^item> \<open>Loop\<close>: the same \<^verbatim>\<open>while (fgets ...)\<close> loop as the inductive
    transition relation \<open>load_step\<close> on configurations (rest of the file,
    loader state) and its counted runs \<open>load_steps\<close>; the loop invariant by
    rule induction over runs (after \<open>n\<close> iterations the environment and
    standard error are the fold over the first \<open>n\<close> lines), and that the
    run from any configuration reaches the end of the file in the state
    \<open>load_lines\<close> computes.
  \<^item> \<open>Main_Prog\<close>: \<^verbatim>\<open>main\<close>, its output, and the NULL passed to
    \<^verbatim>\<open>printf\<close> when \<^verbatim>\<open>API_KEY\<close> is unset.
  \<^item> \<open>Tests\<close>: the helper \<^verbatim>\<open>test_env_loading\<close>, and the two large-file
    tests with their generating loops (\<open>dec\<close> for \<^verbatim>\<open>%d\<close>), proved for
    every line count up to \<open>10^250\<close>.
  \<^item> \<open>Test_Suite\<close>: the test program as it runs. Each of the 19 test
    functions is a function from the environment to the environment it
    leaves, in the option monad (\<open>assert\<close> failing is \<open>None\<close>);
    \<^verbatim>\<open>run_test\<close> and \<^verbatim>\<open>main\<close> (\<open>run_test\<close>, \<open>run_tests\<close>,
    \<open>test_main\<close>) thread one environment through them in the order of
    \<^verbatim>\<open>main\<close> and record the lines printed. One lemma per test gives its
    exact effect; the properties are that the whole program passes, and that
    it passes exactly when six names the tests assert unset are absent from
    the starting environment.
  \<^item> This theory: end-to-end properties through all components, over files
    made by a writer \<open>dotenv_file\<close> (one line \<open>n=x\<close> per entry) from a
    list of names and values: files of quoted, escaped values load back as
    the list (a whole-file round trip with \<open>quote_value\<close>), unquoted values
    are taken verbatim including any \<open>=\<close> (the line is split at its first
    \<open>=\<close>), and quoted values without their closing quote are accepted.

  \<^bold>\<open>Bounds.\<close> All theorems are for the buffer sizes of the code
  (\<open>LINE_SIZE\<close> = 1024, \<open>MAX_VAR_NAME\<close> = 256). No fuel is used: every loop
  of the code is a terminating \<^theory_text>\<open>function\<close> (measure: bytes left in the
  buffer or in the file), so every theorem is about a total function.

  \<^bold>\<open>Not modelled.\<close> \<^verbatim>\<open>fopen\<close>/\<^verbatim>\<open>fclose\<close> beyond the contents of an
  existing file, read errors of \<^verbatim>\<open>fgets\<close>, locales other than "C",
  allocation failure inside \<^verbatim>\<open>setenv\<close>, and in the tests the time
  \<^verbatim>\<open>run_test\<close> measures with \<^verbatim>\<open>clock()\<close> and prints (not a function of
  the program's input; the printed line keeps only the test's name), the
  output of \<^verbatim>\<open>test_multiline_value\<close>'s mismatch branch (unreachable once
  its assertion has passed), and the writing and removal of the test files
  (each test reads back exactly the content it wrote, which the model passes
  as the file system).
\<close>

text \<open>What a writer of \<^verbatim>\<open>.env\<close> files produces: one line \<open>n=x\<close> per entry.\<close>

definition dotenv_file :: "(string \<times> string) list \<Rightarrow> string" where
  "dotenv_file kvs = concat (map (\<lambda>(n, x). n @ ''='' @ x @ [LF]) kvs)"

lemma escape_no_LF_NUL: "LF \<notin> set (concat (map escape_char v))" "NUL \<notin> set v \<Longrightarrow> NUL \<notin> set (concat (map escape_char v))"
  by (auto simp: escape_char_def split: if_splits)

lemma LF_notin_quote_value: "LF \<notin> set (quote_value v)"
  using escape_no_LF_NUL(1) by (simp add: quote_value_def)

text \<open>A file of assignment lines, each with a valid name and a value that does
  not end in a blank, short enough for one \<^verbatim>\<open>fgets\<close>, is loaded as the list
  of its names and decoded values: applied in order over the environment with
  override, under it without.\<close>

lemma dotenv_load_file_env:
  assumes "wf_loader st" and "fs path = Some (dotenv_file kvs)"
    and "\<forall>(n, x)\<in>set kvs. valid_name n \<and> x \<noteq> [] \<and> \<not> isspace (last x) \<and> LF \<notin> set x \<and> NUL \<notin> set x \<and>
           length (n @ ''='' @ x) < LINE_SIZE - 1"
  shows "env (snd (dotenv_load fs path ovr st)) =
    (if ovr then env st ++ map_of (rev (map (\<lambda>(n, x). (n, parse_value_spec x)) kvs))
     else map_of (map (\<lambda>(n, x). (n, parse_value_spec x)) kvs) ++ env st)"
proof -
  let ?L = "map (\<lambda>(n, x). n @ ''='' @ x) kvs"
  have f: "dotenv_file kvs = concat (map (\<lambda>l. l @ [LF]) ?L)"
    unfolding dotenv_file_def by (induction kvs) auto
  have "\<forall>l\<in>set ?L. LF \<notin> set l \<and> NUL \<notin> set l \<and> length l < LINE_SIZE - 1"
  proof
    fix l assume "l \<in> set ?L"
    then obtain n x where nx: "(n, x) \<in> set kvs" and l: "l = n @ ''='' @ x" by auto
    have ok: "name_chars_ok n" using assms(3) nx by (auto simp: valid_name_iff)
    show "LF \<notin> set l \<and> NUL \<notin> set l \<and> length l < LINE_SIZE - 1"
      using assms(3) nx l name_chars_ok_no_NUL [OF ok] name_chars_ok_no_space [OF ok, of LF]
      by (auto simp: isspace_def)
  qed
  then have fl: "file_lines (dotenv_file kvs) = map (\<lambda>l. l @ [LF]) ?L"
    unfolding f by (rule file_lines_newlines)
  have "assignments (file_lines (dotenv_file kvs)) = map (\<lambda>(n, x). (n, parse_value_spec x)) kvs"
    unfolding fl assignments_def map_map
  proof (rule map_filter_all_Some)
    fix a assume "a \<in> set kvs"
    then obtain n x where a: "a = (n, x)" and "valid_name n" "x \<noteq> []" "\<not> isspace (last x)"
      using assms(3) by (cases a) auto
    then show "accepted (((\<lambda>l. l @ [LF]) \<circ> (\<lambda>(n, x). n @ ''='' @ x)) a) =
        Some ((\<lambda>(n, x). (n, parse_value_spec x)) a)"
      using accepted_assign [of n x] by simp
  qed
  then show ?thesis
    using dotenv_load_env_fold [where fs = fs and path = path, OF assms(1,2)]
    by (simp add: fold_env_step_override fold_env_step_keep)
qed

section \<open>End to end\<close>

text \<open>C6: Round trip through a whole file: a file that a writer produces from
  a list of names and values, quoting and escaping each value, is loaded back
  as that list: with override the assignments are applied in order (the last
  one of a name wins), without override under the existing environment. The
  buffer-level \<^verbatim>\<open>fgets\<close>, trimming, splitting, validation and decoding
  compose to the identity on values.\<close>

theorem dotenv_load_quoted_roundtrip:
  assumes "wf_loader st" and "fs path = Some (dotenv_file (map (\<lambda>(n, v). (n, quote_value v)) kvs))"
    and "\<forall>(n, v)\<in>set kvs. valid_name n \<and> NUL \<notin> set v \<and> length (n @ ''='' @ quote_value v) < LINE_SIZE - 1"
  shows "env (snd (dotenv_load fs path ovr st)) =
    (if ovr then env st ++ map_of (rev kvs) else map_of kvs ++ env st)"
proof -
  have "\<forall>(n, x)\<in>set (map (\<lambda>(n, v). (n, quote_value v)) kvs). valid_name n \<and> x \<noteq> [] \<and>
      \<not> isspace (last x) \<and> LF \<notin> set x \<and> NUL \<notin> set x \<and> length (n @ ''='' @ x) < LINE_SIZE - 1"
    using assms(3) LF_notin_quote_value NUL_notin_escape
    by (auto simp: quote_value_def isspace_def)
  moreover have "map (\<lambda>(n, x). (n, parse_value_spec x)) (map (\<lambda>(n, v). (n, quote_value v)) kvs) = kvs"
    by (induction kvs) (auto simp: parse_value_spec_quote)
  ultimately show ?thesis
    using dotenv_load_file_env [where fs = fs and path = path, OF assms(1,2)] by simp
qed

theorem dotenv_load_quoted_roundtrip_witness:
  "env (snd (dotenv_load [''.env'' \<mapsto> dotenv_file [(''K'', quote_value (''a'' @ [LF, DQUOTE])),
       (''K'', quote_value ''b c'')]] ''.env'' True (initial_loader Map.empty))) = [''K'' \<mapsto> ''b c'']"
proof -
  have "env (snd (dotenv_load [''.env'' \<mapsto> dotenv_file (map (\<lambda>(n, v). (n, quote_value v))
       [(''K'', ''a'' @ [LF, DQUOTE]), (''K'', ''b c'')])] ''.env'' True (initial_loader Map.empty))) =
    (if True then env (initial_loader Map.empty) ++ map_of (rev [(''K'', ''a'' @ [LF, DQUOTE]), (''K'', ''b c'')])
     else map_of [(''K'', ''a'' @ [LF, DQUOTE]), (''K'', ''b c'')] ++ env (initial_loader Map.empty))"
    by (rule dotenv_load_quoted_roundtrip)
      (simp_all add: wf_initial_loader valid_name_def ctype_defs MAX_VAR_NAME_def quote_value_def
        escape_char_def LINE_SIZE_def)
  then show ?thesis by (simp add: initial_loader_def)
qed

text \<open>C7: Unquoted values are taken verbatim (spec 4.2 and the open question
  of 9 on \<open>=\<close> in values): in a file of lines \<open>n=v\<close> whose values are not
  quoted, have no \<open>#\<close> and no blanks at their ends, every value, including
  any \<open>=\<close> and inner blanks it holds, is loaded as written, because the line
  is split at its first \<open>=\<close>.\<close>

theorem dotenv_load_unquoted_verbatim:
  assumes "wf_loader st" and "fs path = Some (dotenv_file kvs)"
    and "\<forall>(n, v)\<in>set kvs. valid_name n \<and> v \<noteq> [] \<and> \<not> isspace (hd v) \<and> \<not> isspace (last v) \<and>
           hd v \<noteq> DQUOTE \<and> CHR ''#'' \<notin> set v \<and> LF \<notin> set v \<and> NUL \<notin> set v \<and>
           length (n @ ''='' @ v) < LINE_SIZE - 1"
  shows "env (snd (dotenv_load fs path ovr st)) =
    (if ovr then env st ++ map_of (rev kvs) else map_of kvs ++ env st)"
proof -
  have "map (\<lambda>(n, v). (n, parse_value_spec v)) kvs = kvs"
  proof (rule map_idI)
    fix a assume "a \<in> set kvs"
    then obtain n v where a: "a = (n, v)" and "v \<noteq> []" "\<not> isspace (hd v)" "\<not> isspace (last v)"
        "hd v \<noteq> DQUOTE" "CHR ''#'' \<notin> set v" "length v < LINE_SIZE"
      using assms(3) by (cases a) auto
    then show "(\<lambda>(n, v). (n, parse_value_spec v)) a = a" by (simp add: parse_value_spec_plain)
  qed
  moreover have "\<forall>(n, v)\<in>set kvs. valid_name n \<and> v \<noteq> [] \<and> \<not> isspace (last v) \<and> LF \<notin> set v \<and>
      NUL \<notin> set v \<and> length (n @ ''='' @ v) < LINE_SIZE - 1"
    using assms(3) by auto
  ultimately show ?thesis
    using dotenv_load_file_env [where fs = fs and path = path, OF assms(1,2)] by simp
qed

theorem dotenv_load_unquoted_verbatim_witness:
  "env (snd (dotenv_load [''.env'' \<mapsto> dotenv_file [(''URL'', ''a=b c'')]] ''.env'' False
     (initial_loader [''HOME'' \<mapsto> ''/'']))) = [''URL'' \<mapsto> ''a=b c'', ''HOME'' \<mapsto> ''/'']"
proof -
  have "env (snd (dotenv_load [''.env'' \<mapsto> dotenv_file [(''URL'', ''a=b c'')]] ''.env'' False
     (initial_loader [''HOME'' \<mapsto> ''/'']))) =
    (if False then env (initial_loader [''HOME'' \<mapsto> ''/'']) ++ map_of (rev [(''URL'', ''a=b c'')])
     else map_of [(''URL'', ''a=b c'')] ++ env (initial_loader [''HOME'' \<mapsto> ''/'']))"
    by (rule dotenv_load_unquoted_verbatim)
      (simp_all add: wf_initial_loader valid_name_def ctype_defs MAX_VAR_NAME_def LINE_SIZE_def)
  then show ?thesis by (auto simp: initial_loader_def map_add_def)
qed

text \<open>C8: A quoted value whose closing quote is missing is accepted (spec 4.2
  and 9: end of input ends the value, it is not an error): a file whose lines
  are \<open>n="\<close> followed by the escaped value and no closing quote loads the
  values as if the quotes were closed.\<close>

theorem dotenv_load_unterminated_quote:
  assumes "wf_loader st"
    and "fs path = Some (dotenv_file (map (\<lambda>(n, v). (n, DQUOTE # concat (map escape_char v))) kvs))"
    and "\<forall>(n, v)\<in>set kvs. valid_name n \<and> NUL \<notin> set v \<and> \<not> isspace (last (DQUOTE # concat (map escape_char v))) \<and>
           length (n @ ''='' @ DQUOTE # concat (map escape_char v)) < LINE_SIZE - 1"
  shows "env (snd (dotenv_load fs path ovr st)) =
    (if ovr then env st ++ map_of (rev kvs) else map_of kvs ++ env st)"
proof -
  have "\<forall>(n, x)\<in>set (map (\<lambda>(n, v). (n, DQUOTE # concat (map escape_char v))) kvs). valid_name n \<and> x \<noteq> [] \<and>
      \<not> isspace (last x) \<and> LF \<notin> set x \<and> NUL \<notin> set x \<and> length (n @ ''='' @ x) < LINE_SIZE - 1"
    using assms(3) escape_no_LF_NUL by auto
  moreover have "map (\<lambda>(n, x). (n, parse_value_spec x))
      (map (\<lambda>(n, v). (n, DQUOTE # concat (map escape_char v))) kvs) = kvs"
    using assms(3) by (induction kvs) (auto simp: parse_value_spec_open)
  ultimately show ?thesis
    using dotenv_load_file_env [where fs = fs and path = path, OF assms(1,2)] by simp
qed

theorem dotenv_load_unterminated_quote_witness:
  "env (snd (dotenv_load [''.env'' \<mapsto> dotenv_file [(''K'', DQUOTE # ''a'' @ [BACKSLASH, DQUOTE, CHR ''b''])]]
     ''.env'' True (initial_loader Map.empty))) = [''K'' \<mapsto> ''a'' @ [DQUOTE, CHR ''b'']]"
proof -
  have "env (snd (dotenv_load [''.env'' \<mapsto> dotenv_file (map (\<lambda>(n, v). (n, DQUOTE # concat (map escape_char v)))
       [(''K'', ''a'' @ [DQUOTE, CHR ''b''])])] ''.env'' True (initial_loader Map.empty))) =
    (if True then env (initial_loader Map.empty) ++ map_of (rev [(''K'', ''a'' @ [DQUOTE, CHR ''b''])])
     else map_of [(''K'', ''a'' @ [DQUOTE, CHR ''b''])] ++ env (initial_loader Map.empty))"
    by (rule dotenv_load_unterminated_quote)
      (simp_all add: wf_initial_loader valid_name_def ctype_defs MAX_VAR_NAME_def escape_char_def LINE_SIZE_def)
  then show ?thesis by (simp add: initial_loader_def escape_char_def)
qed

end
